theory Spec2Isabelle
  imports Main "HOL-Library.Word" "HOL-Library.Monad_Syntax"
begin

unbundle bit_operations_syntax

section \<open>The segregated free-list allocator of malloclab-handout/mm_segregated.c\<close>

text \<open>
  Addresses and \<open>size_t\<close> values are 64-bit words, header and footer tags are
  \<open>unsigned int\<close> (32-bit words), free-list links are \<open>int\<close> offsets stored in
  32 bits, and memory is byte addressed and little endian (the x86-64 target of
  the lab). Pointer arithmetic is arithmetic on the 64-bit address, as the
  compiled code does it.
\<close>

type_synonym addr = "64 word"
type_synonym byte = "8 word"
type_synonym memory = "addr \<Rightarrow> byte"

subsection \<open>Constants\<close>

definition WSIZE :: "64 word" where "WSIZE = 4"
definition DSIZE :: "64 word" where "DSIZE = 8"
definition MIN_SIZE :: "64 word" where "MIN_SIZE = 24"
definition LIST_END :: addr where "LIST_END = 0"
definition NULL :: addr where "NULL = 0"
definition NUM_LISTS :: int where "NUM_LISTS = 20"
definition CHUNKSIZE :: "64 word" where "CHUNKSIZE = push_bit 8 1"

subsection \<open>Word access: GET and PUT\<close>

definition GET :: "memory \<Rightarrow> addr \<Rightarrow> 32 word" where
  "GET m p = ucast (m p) OR push_bit 8 (ucast (m (p + 1)))
             OR push_bit 16 (ucast (m (p + 2))) OR push_bit 24 (ucast (m (p + 3)))"

definition PUT :: "memory \<Rightarrow> addr \<Rightarrow> 32 word \<Rightarrow> memory" where
  "PUT m p v = m(p := ucast v, p + 1 := ucast (drop_bit 8 v),
                 p + 2 := ucast (drop_bit 16 v), p + 3 := ucast (drop_bit 24 v))"

definition PACK :: "64 word \<Rightarrow> 64 word \<Rightarrow> 64 word" where
  "PACK sz alloc = sz OR alloc"

definition GET_SIZE :: "memory \<Rightarrow> addr \<Rightarrow> 32 word" where
  "GET_SIZE m p = GET m p AND NOT 7"

definition GET_ALLOC :: "memory \<Rightarrow> addr \<Rightarrow> 32 word" where
  "GET_ALLOC m p = GET m p AND 1"

definition HDRP :: "addr \<Rightarrow> addr" where
  "HDRP bp = bp - 2 * WSIZE"

definition FTRP :: "memory \<Rightarrow> addr \<Rightarrow> addr" where
  "FTRP m bp = bp + ucast (GET_SIZE m (HDRP bp)) - 4 * WSIZE"

definition NEXT_BLKP :: "memory \<Rightarrow> addr \<Rightarrow> addr" where
  "NEXT_BLKP m bp = bp + ucast (GET_SIZE m (HDRP bp))"

definition PREV_BLKP :: "memory \<Rightarrow> addr \<Rightarrow> addr" where
  "PREV_BLKP m bp = bp - ucast (GET_SIZE m (bp - 4 * WSIZE))"

subsection \<open>Free-list links: 32-bit signed offsets, 0 for the list end\<close>

definition PREV_PTR :: "memory \<Rightarrow> addr \<Rightarrow> addr" where
  "PREV_PTR m bp = FTRP m bp + WSIZE"

definition NEXT_PTR :: "addr \<Rightarrow> addr" where
  "NEXT_PTR bp = HDRP bp + WSIZE"

definition GET_PREV_FREE :: "memory \<Rightarrow> addr \<Rightarrow> addr" where
  "GET_PREV_FREE m bp =
     (if GET m (PREV_PTR m bp) = 0 then 0 else bp + scast (GET m (PREV_PTR m bp)))"

definition GET_NEXT_FREE :: "memory \<Rightarrow> addr \<Rightarrow> addr" where
  "GET_NEXT_FREE m bp =
     (if GET m (NEXT_PTR bp) = 0 then 0 else bp + scast (GET m (NEXT_PTR bp)))"

definition SET_PREV_FREE :: "memory \<Rightarrow> addr \<Rightarrow> addr \<Rightarrow> memory" where
  "SET_PREV_FREE m bp prev = PUT m (PREV_PTR m bp) (ucast (prev - bp))"

definition SET_NEXT_FREE :: "memory \<Rightarrow> addr \<Rightarrow> addr \<Rightarrow> memory" where
  "SET_NEXT_FREE m bp nxt = PUT m (NEXT_PTR bp) (ucast (nxt - bp))"

subsection \<open>Size arithmetic\<close>

definition align_size :: "64 word \<Rightarrow> 64 word" where
  "align_size sz =
     (if sz \<le> DSIZE then MIN_SIZE
      else DSIZE * ((sz + 2 * DSIZE + (DSIZE - 1)) div DSIZE))"

function get_list_loop :: "int \<Rightarrow> 64 word \<Rightarrow> int" where
  "get_list_loop list sz =
     (if list < NUM_LISTS - 1 \<and> sz > 0
      then get_list_loop (list + 1) (drop_bit 1 sz) else list)"
  by pat_completeness auto
termination
  by (relation "measure (\<lambda>(list, sz). nat (NUM_LISTS - 1 - list))") auto

declare get_list_loop.simps [simp del]

definition get_list :: "64 word \<Rightarrow> int" where
  "get_list sz = get_list_loop 0 sz"

subsection \<open>Allocator state\<close>

text \<open>
  The globals \<open>heap_listp\<close>, \<open>free_lists\<close> and \<open>eptr\<close>, the heap bytes, and the
  state of the region-growth primitive.
\<close>

record mstate =
  mem :: memory
  mem_start :: addr
  mem_brk :: addr
  mem_max_addr :: addr
  heap_listp :: addr
  free_lists :: "addr list"
  eptr :: addr

text \<open>
  Modelled from the spec: the region-growth primitive \<open>mem_sbrk\<close> (memlib.c is
  not part of the sources). It extends one contiguous region by the given byte
  count and returns the old end of the region, or the failure sentinel
  \<open>(void *)-1\<close> with no effect when the region cannot grow that far.
\<close>

definition mem_sbrk :: "mstate \<Rightarrow> 64 word \<Rightarrow> addr \<times> mstate" where
  "mem_sbrk st incr =
     (if unat (mem_brk st) + unat incr > unat (mem_max_addr st) then (- 1, st)
      else (mem_brk st, st\<lparr>mem_brk := mem_brk st + incr\<rparr>))"

text \<open>
  Modelled from the spec: \<open>mem_heap_lo\<close> and \<open>mem_heap_hi\<close> (memlib.c), the
  addresses of the first and of the last byte of the region.
\<close>

definition mem_heap_lo :: "mstate \<Rightarrow> addr" where
  "mem_heap_lo st = mem_start st"

definition mem_heap_hi :: "mstate \<Rightarrow> addr" where
  "mem_heap_hi st = mem_brk st - 1"

definition put :: "mstate \<Rightarrow> addr \<Rightarrow> 64 word \<Rightarrow> mstate" where
  "put st p val = st\<lparr>mem := PUT (mem st) p (ucast val)\<rparr>"

subsection \<open>Initialisation\<close>

definition mm_init :: "mstate \<Rightarrow> int \<times> mstate" where
  "mm_init st0 =
     (let (p, st) = mem_sbrk st0 (5 * WSIZE);
          st = st\<lparr>heap_listp := p\<rparr>
      in if p = - 1 then (- 1, st)
         else
           let st = st\<lparr>free_lists := replicate (nat NUM_LISTS) NULL\<rparr>;
               st = put st (heap_listp st) (PACK (4 * WSIZE) 1);
               st = put st (heap_listp st + 1 * WSIZE) 0;
               st = put st (heap_listp st + 2 * WSIZE) (PACK (4 * WSIZE) 1);
               st = put st (heap_listp st + 3 * WSIZE) 0;
               st = put st (heap_listp st + 4 * WSIZE) (PACK 0 1);
               st = st\<lparr>heap_listp := heap_listp st + 2 * WSIZE\<rparr>;
               st = st\<lparr>eptr := heap_listp st + 2 * WSIZE\<rparr>
           in (0, st))"

subsection \<open>Tags\<close>

definition set_size :: "mstate \<Rightarrow> addr \<Rightarrow> 64 word \<Rightarrow> mstate" where
  "set_size st bp asize =
     (let st = put st (HDRP bp) (PACK asize 0)
      in put st (FTRP (mem st) bp) (PACK asize 0))"

definition set_alloc :: "mstate \<Rightarrow> addr \<Rightarrow> mstate" where
  "set_alloc st bp =
     (let st = st\<lparr>mem := PUT (mem st) (HDRP bp) (GET (mem st) (HDRP bp) OR 1)\<rparr>
      in st\<lparr>mem := PUT (mem st) (FTRP (mem st) bp) (GET (mem st) (FTRP (mem st) bp) OR 1)\<rparr>)"

definition set_free :: "mstate \<Rightarrow> addr \<Rightarrow> mstate" where
  "set_free st bp =
     (let st = st\<lparr>mem := PUT (mem st) (HDRP bp) (GET (mem st) (HDRP bp) AND NOT 1)\<rparr>
      in st\<lparr>mem := PUT (mem st) (FTRP (mem st) bp)
                      (GET (mem st) (FTRP (mem st) bp) AND NOT 1)\<rparr>)"

subsection \<open>Free-list engine\<close>

definition set_prev_free :: "mstate \<Rightarrow> addr \<Rightarrow> addr \<Rightarrow> mstate" where
  "set_prev_free st bp prev = st\<lparr>mem := SET_PREV_FREE (mem st) bp prev\<rparr>"

definition set_next_free :: "mstate \<Rightarrow> addr \<Rightarrow> addr \<Rightarrow> mstate" where
  "set_next_free st bp nxt = st\<lparr>mem := SET_NEXT_FREE (mem st) bp nxt\<rparr>"

definition set_root :: "mstate \<Rightarrow> int \<Rightarrow> addr \<Rightarrow> mstate" where
  "set_root st list p = st\<lparr>free_lists := (free_lists st)[nat list := p]\<rparr>"

definition root :: "mstate \<Rightarrow> int \<Rightarrow> addr" where
  "root st list = free_lists st ! nat list"

definition delete_block :: "mstate \<Rightarrow> addr \<Rightarrow> mstate" where
  "delete_block st bp =
     (let prev = GET_PREV_FREE (mem st) bp;
          nxt = GET_NEXT_FREE (mem st) bp;
          list = get_list (ucast (GET_SIZE (mem st) (HDRP bp)))
      in if prev = LIST_END \<and> nxt = LIST_END then set_root st list NULL
         else if prev = LIST_END then set_root (set_prev_free st nxt nxt) list nxt
         else if nxt = LIST_END then set_next_free st prev prev
         else set_prev_free (set_next_free st prev nxt) nxt prev)"

definition add_block :: "mstate \<Rightarrow> addr \<Rightarrow> mstate" where
  "add_block st bp =
     (let list = get_list (ucast (GET_SIZE (mem st) (HDRP bp)));
          st = (if root st list \<noteq> NULL
                then let st = set_prev_free st (root st list) bp;
                         st = set_next_free st bp (root st list)
                     in set_prev_free st bp bp
                else let st = set_prev_free st bp bp
                     in set_next_free st bp bp)
      in set_root st list bp)"

subsection \<open>Coalescing and splitting\<close>

definition coalesce :: "mstate \<Rightarrow> addr \<Rightarrow> addr \<times> mstate" where
  "coalesce st bp =
     (let prev = PREV_BLKP (mem st) bp;
          nxt = NEXT_BLKP (mem st) bp;
          prev_alloc = GET_ALLOC (mem st) (HDRP prev);
          next_alloc = GET_ALLOC (mem st) (HDRP nxt);
          sz = (ucast (GET_SIZE (mem st) (HDRP bp)) :: 64 word)
      in if prev_alloc \<noteq> 0 \<and> next_alloc \<noteq> 0 then (bp, add_block st bp)
         else if prev_alloc \<noteq> 0 \<and> next_alloc = 0 then
           (let st = delete_block st nxt;
                sz = sz + ucast (GET_SIZE (mem st) (HDRP nxt));
                st = set_size st bp sz
            in (bp, add_block st bp))
         else if prev_alloc = 0 \<and> next_alloc \<noteq> 0 then
           (let st = delete_block st prev;
                sz = sz + ucast (GET_SIZE (mem st) (HDRP prev));
                st = set_size st prev sz
            in (prev, add_block st prev))
         else
           (let st = delete_block st nxt;
                st = delete_block st prev;
                sz = sz + ucast (GET_SIZE (mem st) (HDRP prev)
                                 + GET_SIZE (mem st) (HDRP nxt));
                st = set_size st prev sz
            in (prev, add_block st prev)))"

definition split :: "mstate \<Rightarrow> addr \<Rightarrow> 64 word \<Rightarrow> addr \<times> mstate" where
  "split st bp asize =
     (let original_size = (ucast (GET_SIZE (mem st) (HDRP bp)) :: 64 word)
      in if original_size \<ge> asize + MIN_SIZE then
           (let st = delete_block st bp;
                st = set_size st bp asize;
                split_block = NEXT_BLKP (mem st) bp;
                st = set_size st split_block (original_size - asize)
            in (bp, add_block st split_block))
         else (bp, delete_block st bp))"

subsection \<open>Search\<close>

text \<open>
  The inner loop of \<open>search_list\<close>: first fit along one chain of links. The
  chain lives in heap bytes and may be cyclic, so the loop is a partial
  function: \<open>None\<close> is the run that never leaves the loop.
\<close>

partial_function (option) scan_chain :: "memory \<Rightarrow> 64 word \<Rightarrow> addr \<Rightarrow> addr option" where
  "scan_chain m asize bp =
     (if bp \<noteq> LIST_END then
        (if ucast (GET_SIZE m (HDRP bp)) \<ge> asize then Some bp
         else scan_chain m asize (GET_NEXT_FREE m bp))
      else Some LIST_END)"

declare scan_chain.simps [code]

text \<open>
  \<open>free_lists[i]\<close> as a checked read: the array has \<open>NUM_LISTS\<close> entries.
\<close>

definition free_lists_at :: "mstate \<Rightarrow> int \<Rightarrow> addr option" where
  "free_lists_at st i =
     (if 0 \<le> i \<and> i < NUM_LISTS then Some (free_lists st ! nat i) else None)"

text \<open>
  What the loops of \<open>search_list\<close> end with: a block that fits, no fit, or a read
  of \<open>free_lists\<close> at an index outside the array.
\<close>

datatype search_end = Fit addr | NoFit | OutOfBounds int

text \<open>
  The outer loop, entered with the current \<open>list\<close> and \<open>bp\<close>. The statement
  \<open>bp = free_lists[list++]\<close> reads the entry at the old value of \<open>list\<close>.
\<close>

function search_loop :: "mstate \<Rightarrow> 64 word \<Rightarrow> int \<Rightarrow> addr \<Rightarrow> search_end option" where
  "search_loop st asize list bp =
     (if list < NUM_LISTS + 1 then
        (case scan_chain (mem st) asize bp of
           None \<Rightarrow> None
         | Some r \<Rightarrow>
             if r \<noteq> LIST_END then Some (Fit r)
             else (case free_lists_at st list of
                     None \<Rightarrow> Some (OutOfBounds list)
                   | Some b \<Rightarrow> search_loop st asize (list + 1) b))
      else Some NoFit)"
  by pat_completeness auto
termination
  by (relation "measure (\<lambda>(st, asize, list, bp). nat (NUM_LISTS + 1 - list))") auto

declare search_loop.simps [simp del]

text \<open>
  \<open>search_list\<close>: the bucket of \<open>get_list asize\<close> is read first (always inside
  the array, \<open>get_list\<close> stays below \<open>NUM_LISTS\<close>), then the loops run. After a
  read outside the array \<open>list\<close> is at least \<open>NUM_LISTS + 1\<close>, the loop ends and
  the value read is never used, so that run returns \<open>NULL\<close> like the run with no
  fit.
\<close>

definition search_list :: "mstate \<Rightarrow> 64 word \<Rightarrow> (addr \<times> mstate) option" where
  "search_list st asize =
     (let list = get_list asize;
          bp = root st list
      in case search_loop st asize list bp of
           None \<Rightarrow> None
         | Some (Fit r) \<Rightarrow> Some (split st r asize)
         | Some NoFit \<Rightarrow> Some (NULL, st)
         | Some (OutOfBounds i) \<Rightarrow> Some (NULL, st))"

subsection \<open>Heap extension\<close>

definition SPACE_LEFT :: "memory \<Rightarrow> addr \<Rightarrow> 32 word" where
  "SPACE_LEFT m ep = (if GET_ALLOC m (HDRP ep) \<noteq> 0 then 0 else GET_SIZE m (HDRP ep))"

definition extend_heap :: "mstate \<Rightarrow> 64 word \<Rightarrow> addr \<times> mstate" where
  "extend_heap st0 asize =
     (let space_left = (ucast (SPACE_LEFT (mem st0) (eptr st0)) :: 64 word);
          sz = asize - space_left;
          sz = (if sz < CHUNKSIZE then CHUNKSIZE else sz);
          (bp, st) = mem_sbrk st0 sz
      in if bp = - 1 then (NULL, st)
         else
           let bp = bp + WSIZE;
               st = set_size st bp sz;
               st = put st (HDRP (NEXT_BLKP (mem st) bp)) (PACK 0 1);
               st = st\<lparr>eptr := eptr st + ucast (GET_SIZE (mem st) (HDRP bp))\<rparr>;
               (bp, st) = coalesce st bp
           in split st bp asize)"

subsection \<open>The public operations\<close>

definition malloc :: "mstate \<Rightarrow> 64 word \<Rightarrow> (addr \<times> mstate) option" where
  "malloc st0 sz =
     (let st = (if heap_listp st0 = 0 then snd (mm_init st0) else st0)
      in if sz = 0 then Some (NULL, st)
         else
           let asize = align_size sz
           in case search_list st asize of
                None \<Rightarrow> None
              | Some (bp, st) \<Rightarrow>
                  if bp = NULL then
                    (let (bp, st) = extend_heap st asize
                     in if bp = NULL then Some (NULL, st)
                        else Some (bp, set_alloc st bp))
                  else Some (bp, set_alloc st bp))"

definition free :: "mstate \<Rightarrow> addr \<Rightarrow> mstate" where
  "free st0 bp =
     (if bp = 0 then st0
      else
        let st = (if heap_listp st0 = 0 then snd (mm_init st0) else st0);
            st = set_free st bp
        in snd (coalesce st bp))"

text \<open>
  \<open>memset\<close> and \<open>memcpy\<close> of the C library on the byte memory. A store through
  the null pointer and a copy between overlapping ranges (undefined in C) are
  faults; a length of zero touches nothing.
\<close>

datatype fault = NullAccess | OverlappingCopy

definition memset_c :: "memory \<Rightarrow> addr \<Rightarrow> byte \<Rightarrow> 64 word \<Rightarrow> fault + memory" where
  "memset_c m p c n =
     (if n = 0 then Inr m
      else if p = NULL then Inl NullAccess
      else Inr (\<lambda>a. if a - p < n then c else m a))"

definition memcpy_c :: "memory \<Rightarrow> addr \<Rightarrow> addr \<Rightarrow> 64 word \<Rightarrow> fault + memory" where
  "memcpy_c m dst src n =
     (if n = 0 then Inr m
      else if dst = NULL \<or> src = NULL then Inl NullAccess
      else if dst - src < n \<or> src - dst < n then Inl OverlappingCopy
      else Inr (\<lambda>a. if a - dst < n then m (src + (a - dst)) else m a))"

definition calloc :: "mstate \<Rightarrow> 64 word \<Rightarrow> 64 word \<Rightarrow> (fault + addr \<times> mstate) option" where
  "calloc st0 nmemb sz =
     (let asize = nmemb * sz
      in case malloc st0 asize of
           None \<Rightarrow> None
         | Some (bp, st) \<Rightarrow>
             (case memset_c (mem st) bp 0 asize of
                Inl f \<Rightarrow> Some (Inl f)
              | Inr m \<Rightarrow> Some (Inr (bp, st\<lparr>mem := m\<rparr>))))"

text \<open>
  The first branch of \<open>realloc\<close>, taken when the adjusted size is at most the
  size of the block: free, insert, split, allocate, with no copy.
\<close>

definition shrink_in_place :: "mstate \<Rightarrow> addr \<Rightarrow> 64 word \<Rightarrow> addr \<times> mstate" where
  "shrink_in_place st0 ptr newsize =
     (let st = set_free st0 ptr;
          st = add_block st ptr;
          (newptr, st) = split st ptr newsize
      in (newptr, set_alloc st newptr))"

definition realloc :: "mstate \<Rightarrow> addr \<Rightarrow> 64 word \<Rightarrow> (fault + addr \<times> mstate) option" where
  "realloc st ptr sz =
     (if sz = 0 then Some (Inr (0, free st ptr))
      else if ptr = NULL then map_option Inr (malloc st sz)
      else
        let oldsize = (ucast (GET_SIZE (mem st) (HDRP ptr)) :: 64 word);
            newsize = align_size sz
        in if newsize \<le> oldsize then Some (Inr (shrink_in_place st ptr newsize))
           else
             let prev = PREV_BLKP (mem st) ptr;
                 nxt = NEXT_BLKP (mem st) ptr;
                 prev_alloc = GET_ALLOC (mem st) (HDRP prev);
                 next_alloc = GET_ALLOC (mem st) (HDRP nxt);
                 prev_size = (ucast (GET_SIZE (mem st) (HDRP prev)) :: 64 word);
                 next_size = (ucast (GET_SIZE (mem st) (HDRP nxt)) :: 64 word);
                 diff = newsize - oldsize
             in if (prev_alloc = 0 \<and> prev_size \<ge> diff)
                   \<or> (next_alloc = 0 \<and> next_size \<ge> diff)
                   \<or> (next_alloc = 0 \<and> prev_alloc = 0 \<and> prev_size + next_size \<ge> diff)
                then
                  (let (newptr, st) = coalesce st ptr
                   in case (if newptr \<noteq> ptr then memcpy_c (mem st) newptr ptr oldsize
                            else Inr (mem st)) of
                        Inl f \<Rightarrow> Some (Inl f)
                      | Inr m \<Rightarrow>
                          (let st = st\<lparr>mem := m\<rparr>;
                               (newptr, st) = split st newptr newsize
                           in Some (Inr (newptr, set_alloc st newptr))))
                else
                  (case malloc st newsize of
                     None \<Rightarrow> None
                   | Some (newptr, st) \<Rightarrow>
                       (case memcpy_c (mem st) newptr ptr oldsize of
                          Inl f \<Rightarrow> Some (Inl f)
                        | Inr m \<Rightarrow> Some (Inr (newptr, free (st\<lparr>mem := m\<rparr>) ptr)))))"

subsection \<open>Heap consistency checker\<close>

text \<open>
  The error-checking pass of \<open>mm_checkheap\<close> (\<open>ERROR_CHECK\<close> is 1). The model
  returns \<open>error_flags\<close>; the C function prints the report and exits when the
  flags are not zero. The bits: 1 unaligned block size, 2 more than one list
  tail, 4 link mismatch, 8 more than one list head, 16 header/footer mismatch,
  32 payload outside the heap, 64 unaligned block pointer, 128 two consecutive
  free blocks, 256 bad prologue, 512 bad epilogue.
\<close>

record checker =
  free_token :: int
  num_head :: "int list"
  num_tail :: "int list"
  error_flags :: "32 word"

definition ALIGNED :: "memory \<Rightarrow> addr \<Rightarrow> bool" where
  "ALIGNED m bp = (GET_SIZE m (HDRP bp) mod 8 = 0)"

definition BPALIGNED :: "addr \<Rightarrow> bool" where
  "BPALIGNED bp = (bp mod 8 = 0)"

definition HEF :: "memory \<Rightarrow> addr \<Rightarrow> bool" where
  "HEF m bp = (GET m (HDRP bp) = GET m (FTRP m bp))"

definition flag :: "checker \<Rightarrow> 32 word \<Rightarrow> checker" where
  "flag c b = c\<lparr>error_flags := error_flags c OR b\<rparr>"

definition check_free_links :: "memory \<Rightarrow> addr \<Rightarrow> checker \<Rightarrow> checker" where
  "check_free_links m bp c0 =
     (let c = c0\<lparr>free_token := free_token c0 + 1\<rparr>;
          c = (if free_token c > 1 then flag c 128 else c);
          list_num = nat (get_list (ucast (GET_SIZE m (HDRP bp))));
          c = (if GET_NEXT_FREE m bp = NULL then
                 (let old = num_tail c ! list_num;
                      c = c\<lparr>num_tail := (num_tail c)[list_num := old + 1]\<rparr>
                  in if old > 1 then flag c 2 else c)
               else if GET_PREV_FREE m (GET_NEXT_FREE m bp) \<noteq> bp then flag c 4
               else c)
      in if GET_PREV_FREE m bp = NULL then
           (let old = num_head c ! list_num;
                c = c\<lparr>num_head := (num_head c)[list_num := old + 1]\<rparr>
            in if old > 1 then flag c 8 else c)
         else if GET_NEXT_FREE m (GET_PREV_FREE m bp) \<noteq> bp then flag c 4
         else c)"

definition check_block :: "mstate \<Rightarrow> addr \<Rightarrow> addr \<Rightarrow> addr \<Rightarrow> checker \<Rightarrow> checker" where
  "check_block st low high bp c0 =
     (let m = mem st;
          c = (if \<not> ALIGNED m bp then flag c0 1 else c0);
          c = (if \<not> BPALIGNED bp then flag c 64 else c);
          c = (if \<not> HEF m bp then flag c 16 else c);
          c = (if bp < low \<or> bp + ucast (GET_SIZE m (HDRP bp)) - DSIZE > high
               then flag c 32 else c);
          c = (if bp = heap_listp st
                  \<and> (ucast (GET_SIZE m (HDRP bp)) \<noteq> 2 * DSIZE \<or> GET_ALLOC m (HDRP bp) = 0)
               then flag c 256 else c)
      in if GET_ALLOC m (HDRP bp) = 0 then check_free_links m bp c
         else c\<lparr>free_token := 0\<rparr>)"

text \<open>
  The scan from the prologue to the first block of size 0. On heap bytes that
  hold no such block the scan does not end: \<open>None\<close>.
\<close>

partial_function (option) check_walk ::
  "mstate \<Rightarrow> addr \<Rightarrow> addr \<Rightarrow> addr \<Rightarrow> checker \<Rightarrow> checker option" where
  "check_walk st low high bp c =
     (if GET_SIZE (mem st) (HDRP bp) > 0
      then check_walk st low high (NEXT_BLKP (mem st) bp) (check_block st low high bp c)
      else Some c)"

declare check_walk.simps [code]

definition mm_checkheap :: "mstate \<Rightarrow> 32 word option" where
  "mm_checkheap st =
     (let high = mem_heap_hi st;
          low = mem_heap_lo st;
          c = \<lparr>free_token = 0, num_head = replicate (nat NUM_LISTS) 0,
               num_tail = replicate (nat NUM_LISTS) 0, error_flags = 0\<rparr>;
          c = (if GET_SIZE (mem st) (high - 3) \<noteq> 0 \<or> GET_ALLOC (mem st) (high - 3) = 0
                  \<or> high - 3 \<noteq> eptr st
               then flag c 512 else c)
      in map_option error_flags (check_walk st low high (heap_listp st) c))"

text \<open>
  The payload size of a block as the checker's report computes it
  (\<open>payload = FTRP(bp)-bp\<close>): the bytes between the block pointer and the footer.
\<close>

definition payload :: "memory \<Rightarrow> addr \<Rightarrow> 64 word" where
  "payload m bp = FTRP m bp - bp"

subsection \<open>Alignment predicates\<close>

text \<open>
  Tags live at 8-aligned addresses and link fields 4 bytes past them.
  \<open>same_tags m m'\<close>: the two memories hold the same word at every 8-aligned
  address. \<open>aligned32\<close>: a 32-bit link offset that is a multiple of 8.
  \<open>roots_aligned\<close>: the bucket table has its 20 entries, all 8-aligned.
\<close>

definition same_tags :: "memory \<Rightarrow> memory \<Rightarrow> bool" where
  "same_tags m m' = (\<forall>q. BPALIGNED q \<longrightarrow> GET m' q = GET m q)"

definition aligned32 :: "32 word \<Rightarrow> bool" where
  "aligned32 w = (w mod 8 = 0)"

definition roots_aligned :: "mstate \<Rightarrow> bool" where
  "roots_aligned st = (list_all BPALIGNED (free_lists st) \<and> length (free_lists st) = 20)"

subsection \<open>The block sequence and heap consistency\<close>

text \<open>
  \<open>heap_blocks m e p\<close> walks the heap as the checker does, from block pointer
  \<open>p\<close> by \<open>NEXT_BLKP\<close>, and returns the block pointers met before the
  epilogue's block pointer \<open>e\<close>; \<open>None\<close> when a block is smaller than 16 bytes
  or runs past \<open>e\<close>. \<open>layout_ok\<close> is the block layout of section 3 of the
  spec on top of that walk: an aligned heap shorter than \<open>2^31\<close> bytes between
  an allocated prologue and the epilogue tag, header equal to footer in every
  block, no two neighbours both free, link offsets of free blocks and bucket
  heads 8-aligned.
\<close>

definition blk_size :: "memory \<Rightarrow> addr \<Rightarrow> nat" where
  "blk_size m bp = unat (GET_SIZE m (HDRP bp))"

function heap_blocks :: "memory \<Rightarrow> addr \<Rightarrow> addr \<Rightarrow> addr list option" where
  "heap_blocks m e p =
     (if p = e then Some []
      else if 16 \<le> blk_size m p \<and> unat p + blk_size m p \<le> unat e
           then map_option ((#) p) (heap_blocks m e (NEXT_BLKP m p))
           else None)"
  by pat_completeness auto
termination
proof (relation "measure (\<lambda>(m, e, p). unat e - unat p)", goal_cases)
  case 1 show ?case by simp
next
  case (2 m e p)
  have "unat (ucast (GET_SIZE m (HDRP p)) :: 64 word) = blk_size m p"
    by (simp add: blk_size_def unsigned_ucast_eq take_bit_nat_eq_self
        order_less_le_trans[OF unsigned_less[of "GET_SIZE m (HDRP p)", where 'a = nat]])
  moreover have "unat e < 2 ^ 64" using unsigned_less[of e, where 'a = nat] by simp
  ultimately have "unat (NEXT_BLKP m p) = unat p + blk_size m p"
    using 2 by (simp add: NEXT_BLKP_def unat_word_ariths)
  then show ?case using 2 by auto
qed

declare heap_blocks.simps [simp del]

text \<open>The allocation bit of the header.\<close>

definition is_free :: "memory \<Rightarrow> addr \<Rightarrow> bool" where
  "is_free m bp = (GET_ALLOC m (HDRP bp) = 0)"

fun no_adjacent_free :: "memory \<Rightarrow> addr list \<Rightarrow> bool" where
  "no_adjacent_free m (a # b # bs) = (\<not> (is_free m a \<and> is_free m b) \<and> no_adjacent_free m (b # bs))"
| "no_adjacent_free m bs = True"

definition links_aligned :: "memory \<Rightarrow> addr \<Rightarrow> bool" where
  "links_aligned m bp = (aligned32 (GET m (NEXT_PTR bp)) \<and> aligned32 (GET m (PREV_PTR m bp)))"

definition layout_ok :: "mstate \<Rightarrow> bool" where
  "layout_ok st =
     (heap_listp st \<noteq> 0 \<and> BPALIGNED (heap_listp st) \<and> 8 \<le> unat (heap_listp st)
      \<and> unat (eptr st) + 8 < 2 ^ 64
      \<and> unat (eptr st) + 8 - unat (heap_listp st) < 2 ^ 31
      \<and> GET (mem st) (eptr st) = 1
      \<and> roots_aligned st
      \<and> (case heap_blocks (mem st) (eptr st + 8) (heap_listp st) of
            None \<Rightarrow> False
          | Some bs \<Rightarrow>
              bs \<noteq> [] \<and> \<not> is_free (mem st) (hd bs)
              \<and> list_all (HEF (mem st)) bs
              \<and> no_adjacent_free (mem st) bs
              \<and> list_all (\<lambda>b. is_free (mem st) b \<longrightarrow> links_aligned (mem st) b) bs))"

text \<open>
  The buckets. \<open>cls\<close> is the bucket index of a block, \<open>get_list\<close> of its
  size. \<open>chain_of m fuel p\<close> lists the blocks that the inner loop of
  \<open>search_list\<close> visits from \<open>p\<close> along the forward links, at most one per
  element of \<open>fuel\<close>; \<open>bucket st bs i\<close> is that list for the head of bucket
  \<open>i\<close>, with the heap walk as fuel. \<open>dls m pr p cs q\<close>: the blocks \<open>cs\<close> are
  doubly linked from \<open>p\<close> (whose back link is \<open>pr\<close>) to the forward link \<open>q\<close>
  of the last one. A bucket is in order when its chain is doubly linked from
  the bucket head to the list end, with no back link in the head, and holds
  each free block of its size class exactly once and nothing else.
  \<open>consistent\<close> is the invariant of section 3 of the spec: the block layout,
  and every bucket in order.
\<close>

definition cls :: "memory \<Rightarrow> addr \<Rightarrow> int" where
  "cls m bp = get_list (ucast (GET_SIZE m (HDRP bp)))"

fun chain_of :: "memory \<Rightarrow> 'a list \<Rightarrow> addr \<Rightarrow> addr list" where
  "chain_of m [] p = []"
| "chain_of m (f # fuel) p =
     (if p = LIST_END then [] else p # chain_of m fuel (GET_NEXT_FREE m p))"

fun dls :: "memory \<Rightarrow> addr \<Rightarrow> addr \<Rightarrow> addr list \<Rightarrow> addr \<Rightarrow> bool" where
  "dls m pr p [] q = (p = q)"
| "dls m pr p (b # bs) q =
     (p = b \<and> b \<noteq> LIST_END \<and> GET_PREV_FREE m b = pr \<and> dls m b (GET_NEXT_FREE m b) bs q)"

definition bucket :: "mstate \<Rightarrow> addr list \<Rightarrow> int \<Rightarrow> addr list" where
  "bucket st bs i = chain_of (mem st) bs (root st i)"

definition bucket_ok :: "mstate \<Rightarrow> addr list \<Rightarrow> int \<Rightarrow> bool" where
  "bucket_ok st bs i =
     (dls (mem st) LIST_END (root st i) (bucket st bs i) LIST_END
      \<and> distinct (bucket st bs i)
      \<and> set (bucket st bs i) = set (filter (\<lambda>b. is_free (mem st) b \<and> cls (mem st) b = i) bs))"

definition consistent :: "mstate \<Rightarrow> bool" where
  "consistent st =
     (layout_ok st
      \<and> (case heap_blocks (mem st) (eptr st + 8) (heap_listp st) of
            None \<Rightarrow> False
          | Some bs \<Rightarrow> list_all (bucket_ok st bs) [0..19]))"

text \<open>
  Proof devices. \<open>seg m p bs x\<close>: the blocks \<open>bs\<close> lie end to end from \<open>p\<close> to
  \<open>x\<close>. \<open>frame m m' lo hi\<close>: the two memories agree on every aligned word
  outside the addresses \<open>lo\<close> to \<open>hi - 1\<close>. \<open>link_mono m m'\<close>: a link word that
  is a multiple of 8 in \<open>m\<close> is one in \<open>m'\<close>. \<open>same_links m m'\<close>: the two
  memories hold the same link words. \<open>nodes m lo hi G\<close>: the blocks of \<open>G\<close> are
  aligned, at least 16 bytes long, pairwise disjoint and inside the addresses
  \<open>lo\<close> to \<open>hi\<close>, less than \<open>2^31\<close> apart. \<open>buckets st LS\<close>: bucket \<open>i\<close> is the
  doubly linked chain \<open>LS i\<close> of distinct blocks of class \<open>i\<close>.
\<close>

fun seg :: "memory \<Rightarrow> addr \<Rightarrow> addr list \<Rightarrow> addr \<Rightarrow> bool" where
  "seg m p [] x = (p = x)"
| "seg m p (b # bs) x =
     (b = p \<and> 16 \<le> blk_size m p \<and> unat p + blk_size m p \<le> unat x \<and> seg m (NEXT_BLKP m p) bs x)"

definition frame :: "memory \<Rightarrow> memory \<Rightarrow> nat \<Rightarrow> nat \<Rightarrow> bool" where
  "frame m m' lo hi = (\<forall>q. BPALIGNED q \<longrightarrow> unat q < lo \<or> hi \<le> unat q \<longrightarrow> GET m' q = GET m q)"

definition link_mono :: "memory \<Rightarrow> memory \<Rightarrow> bool" where
  "link_mono m m' = (\<forall>q. BPALIGNED q \<longrightarrow> aligned32 (GET m (q + 4)) \<longrightarrow> aligned32 (GET m' (q + 4)))"

definition same_links :: "memory \<Rightarrow> memory \<Rightarrow> bool" where
  "same_links m m' = (\<forall>q. BPALIGNED q \<longrightarrow> GET m' (q + 4) = GET m (q + 4))"

definition nodes :: "memory \<Rightarrow> nat \<Rightarrow> nat \<Rightarrow> addr set \<Rightarrow> bool" where
  "nodes m lo hi G =
     (8 \<le> lo \<and> hi < 2 ^ 64 \<and> hi - lo < 2 ^ 31
      \<and> (\<forall>b \<in> G. BPALIGNED b \<and> lo \<le> unat b \<and> 16 \<le> blk_size m b \<and> unat b + blk_size m b \<le> hi)
      \<and> (\<forall>b \<in> G. \<forall>c \<in> G. b \<noteq> c \<longrightarrow>
            unat b + blk_size m b \<le> unat c \<or> unat c + blk_size m c \<le> unat b))"

definition buckets :: "mstate \<Rightarrow> (int \<Rightarrow> addr list) \<Rightarrow> bool" where
  "buckets st LS =
     (length (free_lists st) = 20
      \<and> (\<forall>i. 0 \<le> i \<and> i < 20 \<longrightarrow>
            dls (mem st) 0 (root st i) (LS i) 0 \<and> distinct (LS i)
            \<and> (\<forall>b \<in> set (LS i). cls (mem st) b = i)))"

subsection \<open>Concrete heaps\<close>

text \<open>
  A region of 4096 bytes at address 4096 (all bytes zero) before \<open>mm_init\<close>,
  and the heap that \<open>mm_init\<close> builds in it.
\<close>

definition fresh :: mstate where
  "fresh = \<lparr>mem = (\<lambda>_. 0), mem_start = 4096, mem_brk = 4096, mem_max_addr = 8192,
            heap_listp = 0, free_lists = [], eptr = 0\<rparr>"

definition heap0 :: mstate where
  "heap0 = \<lparr>mem = PUT (PUT (PUT (PUT (PUT (\<lambda>_. 0) 4096 17) 4100 0) 4104 17) 4108 0) 4112 1,
            mem_start = 4096, mem_brk = 4116, mem_max_addr = 8192,
            heap_listp = 4104,
            free_lists = [0, 0, 0, 0, 0, 0, 0, 0, 0, 0, 0, 0, 0, 0, 0, 0, 0, 0, 0, 0],
            eptr = 4112\<rparr>"

text \<open>
  The initialised heap in a region that cannot grow by a chunk, and the
  initialised heap over memory whose byte 4124 is not zero.
\<close>

definition heap0_full :: mstate where
  "heap0_full = heap0\<lparr>mem_max_addr := 4200\<rparr>"

definition heap0_dirty :: mstate where
  "heap0_dirty = heap0\<lparr>mem := (mem heap0)(4124 := 0xFF)\<rparr>"

text \<open>
  A heap with a free block of 24 bytes at 4120, an allocated block of 24 bytes
  at 4144 and a free block of 24 bytes at 4168. Both free blocks belong to
  bucket 5, and in both the back link and the forward link mark the list end.
\<close>

definition two_heads :: mstate where
  "two_heads =
     \<lparr>mem = PUT (PUT (PUT (PUT (PUT (PUT (PUT (PUT (PUT (\<lambda>_. 0)
              4096 17) 4104 17) 4112 24) 4128 24) 4136 25) 4152 25) 4160 24) 4176 24) 4184 1,
      mem_start = 4096, mem_brk = 4188, mem_max_addr = 8192,
      heap_listp = 4104,
      free_lists = [0, 0, 0, 0, 0, 4120, 0, 0, 0, 0, 0, 0, 0, 0, 0, 0, 0, 0, 0, 0],
      eptr = 4184\<rparr>"

text \<open>
  The heap after \<open>malloc 1000\<close> on the initialised heap: one allocated block
  of 1016 bytes at 4120.
\<close>

definition heap1000 :: mstate where
  "heap1000 =
     \<lparr>mem = PUT (PUT (PUT (PUT (PUT (PUT (PUT (PUT (PUT (PUT (PUT (PUT (\<lambda>_. 0)
              4096 17) 4100 0) 4104 17) 4108 0) 4112 1) 4112 1016) 5120 1016) 5128 1)
              5124 0) 4116 0) 4112 1017) 5120 1017,
      mem_start = 4096, mem_brk = 5132, mem_max_addr = 8192,
      heap_listp = 4104,
      free_lists = [0, 0, 0, 0, 0, 0, 0, 0, 0, 0, 0, 0, 0, 0, 0, 0, 0, 0, 0, 0],
      eptr = 5128\<rparr>"

text \<open>
  Scenario B of the spec before its last call: \<open>a = malloc 16\<close>,
  \<open>b = malloc 16\<close>, \<open>free a\<close> on the initialised heap. The blocks are the
  prologue, \<open>a\<close> at 4120 (free, 32 bytes), \<open>b\<close> at 4152 (allocated, 32 bytes)
  and the rest of the chunk at 4184 (free, 192 bytes).
\<close>

definition heapAB :: mstate where
  "heapAB =
     \<lparr>mem = PUT (PUT (PUT (PUT (PUT (PUT (PUT (PUT (PUT (PUT (PUT (PUT (PUT (PUT (PUT (PUT
            (PUT (PUT (PUT (PUT (PUT (PUT (PUT (PUT (PUT (PUT (PUT (PUT (PUT (PUT (\<lambda>_. 0)
              4096 17) 4100 0) 4104 17) 4108 0) 4112 1) 4112 256) 4360 256) 4368 1) 4364 0)
              4116 0) 4112 32) 4136 32) 4144 224) 4360 224) 4364 0) 4148 0) 4112 33) 4136 33)
              4144 32) 4168 32) 4176 192) 4360 192) 4364 0) 4180 0) 4144 33) 4168 33) 4112 32)
              4136 32) 4140 0) 4116 0,
      mem_start = 4096, mem_brk = 4372, mem_max_addr = 8192,
      heap_listp = 4104,
      free_lists = [0, 0, 0, 0, 0, 0, 4120, 0, 4184, 0, 0, 0, 0, 0, 0, 0, 0, 0, 0, 0],
      eptr = 4368\<rparr>"

section \<open>Properties\<close>

subsection \<open>Word access on byte memory\<close>

lemma bytes_join:
  "ucast (ucast v :: 8 word) OR push_bit 8 (ucast (ucast (drop_bit 8 v) :: 8 word))
   OR push_bit 16 (ucast (ucast (drop_bit 16 v) :: 8 word))
   OR push_bit 24 (ucast (ucast (drop_bit 24 v) :: 8 word)) = (v :: 32 word)"
  apply (rule bit_word_eqI)
  apply (simp add: bit_simps)
  apply (auto simp: not_less not_le)
  subgoal for n by (cases "24 \<le> n") auto
  done

lemma GET_PUT_same: "GET (PUT m p v) p = v"
  by (simp add: GET_def PUT_def bytes_join)

lemma off_eq:
  fixes p q i j :: "64 word"
  shows "q + i = p + j \<Longrightarrow> q - p = j - i \<and> p - q = i - j"
  by (auto simp: algebra_simps)

lemma apart:
  fixes p q i j :: "64 word"
  assumes a: "4 \<le> q - p" "4 \<le> p - q" and i: "i < 4" and j: "j < 4"
  shows "q + i \<noteq> p + j"
proof
  assume "q + i = p + j"
  then have e: "q - p = j - i" "p - q = i - j" using off_eq by blast+
  show False
  proof (cases "i \<le> j")
    case True
    then have "unat (j - i) = unat j - unat i" by (simp add: unat_sub)
    moreover have "unat j < 4" using j by (simp add: word_less_nat_alt)
    moreover have "4 \<le> unat (j - i)" using a(1) e(1) by (simp add: word_le_nat_alt)
    ultimately show False by arith
  next
    case False
    then have "j \<le> i" by simp
    then have "unat (i - j) = unat i - unat j" by (simp add: unat_sub)
    moreover have "unat i < 4" using i by (simp add: word_less_nat_alt)
    moreover have "4 \<le> unat (i - j)" using a(2) e(2) by (simp add: word_le_nat_alt)
    ultimately show False by arith
  qed
qed

lemma lt4: "(0::64 word) < 4" "(1::64 word) < 4" "(2::64 word) < 4" "(3::64 word) < 4"
  by (simp_all add: word_less_nat_alt)

lemma apart_neq:
  fixes p q :: "64 word"
  assumes "4 \<le> q - p" "4 \<le> p - q"
  shows "q \<noteq> p" "q \<noteq> p + 1" "q \<noteq> p + 2" "q \<noteq> p + 3"
        "q + 1 \<noteq> p" "q + 1 \<noteq> p + 2" "q + 1 \<noteq> p + 3"
        "q + 2 \<noteq> p" "q + 2 \<noteq> p + 1" "q + 2 \<noteq> p + 3"
        "q + 3 \<noteq> p" "q + 3 \<noteq> p + 1" "q + 3 \<noteq> p + 2"
proof -
  show "q \<noteq> p" using apart[OF assms lt4(1) lt4(1)] by simp
  show "q \<noteq> p + 1" using apart[OF assms lt4(1) lt4(2)] by simp
  show "q \<noteq> p + 2" using apart[OF assms lt4(1) lt4(3)] by simp
  show "q \<noteq> p + 3" using apart[OF assms lt4(1) lt4(4)] by simp
  show "q + 1 \<noteq> p" using apart[OF assms lt4(2) lt4(1)] by simp
  show "q + 1 \<noteq> p + 2" using apart[OF assms lt4(2) lt4(3)] by simp
  show "q + 1 \<noteq> p + 3" using apart[OF assms lt4(2) lt4(4)] by simp
  show "q + 2 \<noteq> p" using apart[OF assms lt4(3) lt4(1)] by simp
  show "q + 2 \<noteq> p + 1" using apart[OF assms lt4(3) lt4(2)] by simp
  show "q + 2 \<noteq> p + 3" using apart[OF assms lt4(3) lt4(4)] by simp
  show "q + 3 \<noteq> p" using apart[OF assms lt4(4) lt4(1)] by simp
  show "q + 3 \<noteq> p + 1" using apart[OF assms lt4(4) lt4(2)] by simp
  show "q + 3 \<noteq> p + 2" using apart[OF assms lt4(4) lt4(3)] by simp
qed

lemma GET_PUT_other:
  "4 \<le> q - p \<Longrightarrow> 4 \<le> p - q \<Longrightarrow> GET (PUT m p v) q = GET m q"
  by (simp add: GET_def PUT_def apart_neq[of q p])

lemma GET_zero: "GET (\<lambda>_. 0) p = 0"
  by (simp add: GET_def)

lemmas cdefs = WSIZE_def DSIZE_def MIN_SIZE_def LIST_END_def NULL_def NUM_LISTS_def CHUNKSIZE_def

lemmas macros = PACK_def GET_SIZE_def GET_ALLOC_def HDRP_def FTRP_def NEXT_BLKP_def PREV_BLKP_def
  PREV_PTR_def NEXT_PTR_def GET_PREV_FREE_def GET_NEXT_FREE_def SET_PREV_FREE_def SET_NEXT_FREE_def
  SPACE_LEFT_def

subsection \<open>Aligned word accesses\<close>

lemma and3_take_bit: "(x :: 64 word) AND 3 = take_bit 2 x"
  by (simp add: take_bit_eq_mask mask_eq_exp_minus_1)

lemma al4_mult: "(4 * k) AND 3 = (0 :: 64 word)"
proof -
  have "take_bit 2 (push_bit 2 k) = (0 :: 64 word)"
    by (simp add: take_bit_push_bit)
  then show ?thesis by (simp add: and3_take_bit push_bit_eq_mult mult.commute)
qed

lemma al4_split: "(x :: 64 word) AND 3 = 0 \<Longrightarrow> x = 4 * drop_bit 2 x"
  using bits_ident[of 2 x] by (simp add: and3_take_bit push_bit_eq_mult mult.commute)

lemma al4_sub:
  fixes p q :: "64 word"
  assumes "p AND 3 = 0" "q AND 3 = 0"
  shows "(q - p) AND 3 = 0"
proof -
  have "q - p = 4 * (drop_bit 2 q - drop_bit 2 p)"
    using al4_split[OF assms(1)] al4_split[OF assms(2)] by (simp add: algebra_simps)
  then show ?thesis using al4_mult by metis
qed

lemma al4_ge:
  fixes x :: "64 word"
  assumes "x AND 3 = 0" "x \<noteq> 0"
  shows "4 \<le> x"
proof -
  have "unat (take_bit 2 x) = unat x mod 4"
    by (simp add: take_bit_eq_mod unat_mod)
  then have "unat x mod 4 = 0" using assms(1) by (simp add: and3_take_bit)
  moreover have "unat x \<noteq> 0" using assms(2) by (simp add: unat_eq_zero)
  ultimately have "4 \<le> unat x" by arith
  then show ?thesis by (simp add: word_le_nat_alt)
qed

lemma GET_PUT_aligned:
  assumes "p AND 3 = 0" "q AND 3 = 0" "q \<noteq> p"
  shows "GET (PUT m p v) q = GET m q"
proof -
  have "4 \<le> q - p" using al4_ge[OF al4_sub[OF assms(1,2)]] assms(3) by simp
  moreover have "4 \<le> p - q" using al4_ge[OF al4_sub[OF assms(2,1)]] assms(3) by simp
  ultimately show ?thesis by (rule GET_PUT_other)
qed

subsection \<open>Evaluation on concrete heaps\<close>

lemmas ops = put_def set_size_def set_alloc_def set_free_def set_prev_free_def set_next_free_def
  set_root_def root_def delete_block_def add_block_def coalesce_def split_def search_list_def
  extend_heap_def malloc_def mm_init_def mem_sbrk_def free_lists_at_def align_size_def get_list_def

lemmas loops = get_list_loop.simps search_loop.simps scan_chain.simps

lemma rep20: "replicate 20 x = [x, x, x, x, x, x, x, x, x, x, x, x, x, x, x, x, x, x, x, x]"
  by (simp add: numeral_eq_Suc)

lemmas evals = cdefs macros ops loops GET_PUT_same GET_PUT_aligned GET_zero Let_def rep20

lemma GET_memset_outside:
  "\<not> q - p < n \<Longrightarrow> \<not> q + 1 - p < n \<Longrightarrow> \<not> q + 2 - p < n \<Longrightarrow> \<not> q + 3 - p < n
   \<Longrightarrow> GET (\<lambda>a. if a - p < n then c else m a) q = GET m q"
  by (simp add: GET_def)

lemma GET_upd_other:
  "a \<noteq> q \<Longrightarrow> a \<noteq> q + 1 \<Longrightarrow> a \<noteq> q + 2 \<Longrightarrow> a \<noteq> q + 3 \<Longrightarrow> GET (m(a := b)) q = GET m q"
  by (simp add: GET_def)

lemma PUT_byte_other:
  "a \<noteq> p \<Longrightarrow> a \<noteq> p + 1 \<Longrightarrow> a \<noteq> p + 2 \<Longrightarrow> a \<noteq> p + 3 \<Longrightarrow> PUT m p v a = m a"
  by (simp add: PUT_def)

lemmas evals2 = evals calloc_def realloc_def shrink_in_place_def memset_c_def memcpy_c_def free_def payload_def

lemmas chk = mm_checkheap_def check_walk.simps check_block_def check_free_links_def flag_def
  ALIGNED_def BPALIGNED_def HEF_def mem_heap_hi_def mem_heap_lo_def

lemma mm_init_fresh: "mm_init fresh = (0, heap0)"
  by (simp add: evals fresh_def heap0_def cong: let_weak_cong)


subsection \<open>Alignment of block pointers, tags and links\<close>

lemma al8_iff: "BPALIGNED x \<longleftrightarrow> (\<exists>k. x = 8 * k)"
proof
  assume "BPALIGNED x"
  then have "take_bit 3 x = 0" by (simp add: BPALIGNED_def take_bit_eq_mod)
  then have "x = 8 * drop_bit 3 x"
    using bits_ident[of 3 x] by (simp add: push_bit_eq_mult mult.commute)
  then show "\<exists>k. x = 8 * k" by blast
next
  assume "\<exists>k. x = 8 * k"
  then obtain k where "x = 8 * k" by blast
  moreover have "take_bit 3 (push_bit 3 k) = (0 :: 64 word)" by (simp add: take_bit_push_bit)
  ultimately show "BPALIGNED x"
    by (simp add: BPALIGNED_def take_bit_eq_mod push_bit_eq_mult mult.commute)
qed

lemma al8_0 [simp]: "BPALIGNED 0" by (simp add: BPALIGNED_def)

lemma al8_add: "BPALIGNED a \<Longrightarrow> BPALIGNED b \<Longrightarrow> BPALIGNED (a + b)"
  unfolding al8_iff by (metis distrib_left)

lemma al8_sub: "BPALIGNED a \<Longrightarrow> BPALIGNED b \<Longrightarrow> BPALIGNED (a - b)"
  unfolding al8_iff by (metis right_diff_distrib)

lemma al8_num [simp]: "BPALIGNED 8" "BPALIGNED 16" "BPALIGNED 24"
  by (simp_all add: BPALIGNED_def)

lemma al8_and3: "BPALIGNED x \<Longrightarrow> x AND 3 = 0"
proof -
  assume "BPALIGNED x"
  then obtain k where "x = 8 * k" unfolding al8_iff by blast
  then have "x = 4 * (2 * k)" by simp
  then show ?thesis using al4_mult by metis
qed

lemma al8_link_ne:
  assumes "BPALIGNED p" "BPALIGNED q"
  shows "q \<noteq> p + 4"
proof
  assume "q = p + 4"
  then have "q - p = 4" by simp
  moreover have "BPALIGNED (q - p)" using assms by (simp add: al8_sub)
  ultimately show False by (simp add: BPALIGNED_def)
qed

text \<open>A store to a link field (4 past an aligned address) leaves every aligned word.\<close>

lemma GET_PUT_link:
  assumes "BPALIGNED p" "BPALIGNED q"
  shows "GET (PUT m (p + 4) v) q = GET m q"
proof -
  have "(p + 4) AND 3 = 0"
    using al4_sub[of "- 4" p] al8_and3[OF assms(1)] by simp
  moreover have "q AND 3 = 0" using al8_and3[OF assms(2)] .
  moreover have "q \<noteq> p + 4" using al8_link_ne[OF assms] .
  ultimately show ?thesis by (rule GET_PUT_aligned)
qed

lemma GET_PUT_tag:
  assumes "BPALIGNED p" "BPALIGNED q"
  shows "GET (PUT m p v) q = (if q = p then v else GET m q)"
  using GET_PUT_same GET_PUT_aligned[OF al8_and3[OF assms(1)] al8_and3[OF assms(2)]] by simp

lemma al8_ucast_size: "BPALIGNED (ucast (GET_SIZE m p) :: 64 word)"
proof -
  have seven: "(7 :: 32 word) = mask 3" by (simp add: mask_eq_exp_minus_1)
  have "take_bit 3 (ucast (GET m p AND NOT 7) :: 64 word) = 0"
    unfolding seven by (rule bit_word_eqI) (auto simp: bit_simps)
  then show ?thesis by (simp add: BPALIGNED_def GET_SIZE_def take_bit_eq_mod)
qed

lemma same_tags_refl [simp]: "same_tags m m" by (simp add: same_tags_def)

lemma same_tags_trans: "same_tags a b \<Longrightarrow> same_tags b c \<Longrightarrow> same_tags a c" by (simp add: same_tags_def)

lemma same_tags_GET: "same_tags m m' \<Longrightarrow> BPALIGNED q \<Longrightarrow> GET m' q = GET m q" by (simp add: same_tags_def)

lemma al8_HDRP: "BPALIGNED bp \<Longrightarrow> BPALIGNED (HDRP bp)"
  using al8_sub[of bp 8] by (simp add: HDRP_def WSIZE_def)

lemma al8_FTRP: "BPALIGNED bp \<Longrightarrow> BPALIGNED (FTRP m bp)"
  using al8_sub[OF al8_add[OF _ al8_ucast_size], of bp 16] by (simp add: FTRP_def WSIZE_def)

lemma al8_NEXT_BLKP: "BPALIGNED bp \<Longrightarrow> BPALIGNED (NEXT_BLKP m bp)"
  by (simp add: NEXT_BLKP_def al8_add al8_ucast_size)

lemma al8_PREV_BLKP: "BPALIGNED bp \<Longrightarrow> BPALIGNED (PREV_BLKP m bp)"
  by (simp add: PREV_BLKP_def al8_sub al8_ucast_size)

lemma same_tags_SIZE: "same_tags m m' \<Longrightarrow> BPALIGNED q \<Longrightarrow> GET_SIZE m' q = GET_SIZE m q"
  by (simp add: GET_SIZE_def same_tags_GET)

lemma same_tags_ALLOC: "same_tags m m' \<Longrightarrow> BPALIGNED q \<Longrightarrow> GET_ALLOC m' q = GET_ALLOC m q"
  by (simp add: GET_ALLOC_def same_tags_GET)

lemma same_tags_FTRP: "same_tags m m' \<Longrightarrow> BPALIGNED bp \<Longrightarrow> FTRP m' bp = FTRP m bp"
  by (simp add: FTRP_def same_tags_SIZE al8_HDRP)

lemma same_tags_PREV_PTR: "same_tags m m' \<Longrightarrow> BPALIGNED bp \<Longrightarrow> PREV_PTR m' bp = PREV_PTR m bp"
  by (simp add: PREV_PTR_def same_tags_FTRP)

lemma same_tags_NEXT_BLKP: "same_tags m m' \<Longrightarrow> BPALIGNED bp \<Longrightarrow> NEXT_BLKP m' bp = NEXT_BLKP m bp"
  by (simp add: NEXT_BLKP_def same_tags_SIZE al8_HDRP)

lemma same_tags_PREV_BLKP: "same_tags m m' \<Longrightarrow> BPALIGNED bp \<Longrightarrow> PREV_BLKP m' bp = PREV_BLKP m bp"
  using al8_sub[of bp 16] by (simp add: PREV_BLKP_def same_tags_SIZE WSIZE_def)

lemma NEXT_PTR_link: "NEXT_PTR bp = HDRP bp + 4" by (simp add: NEXT_PTR_def WSIZE_def)
lemma PREV_PTR_link: "PREV_PTR m bp = FTRP m bp + 4" by (simp add: PREV_PTR_def WSIZE_def)

lemma same_tags_SET_NEXT: "BPALIGNED bp \<Longrightarrow> same_tags m (SET_NEXT_FREE m bp x)"
  by (simp add: same_tags_def SET_NEXT_FREE_def NEXT_PTR_link GET_PUT_link al8_HDRP)

lemma same_tags_SET_PREV: "BPALIGNED bp \<Longrightarrow> same_tags m (SET_PREV_FREE m bp x)"
  by (simp add: same_tags_def SET_PREV_FREE_def PREV_PTR_link GET_PUT_link al8_FTRP)

lemma al8_take_bit: "BPALIGNED x \<longleftrightarrow> take_bit 3 x = 0"
  by (simp add: BPALIGNED_def take_bit_eq_mod)

lemma aligned32_take_bit: "aligned32 w \<longleftrightarrow> take_bit 3 w = 0"
  by (simp add: aligned32_def take_bit_eq_mod)

lemma take_bit3_bits: "take_bit 3 (x :: 'a::len word) = 0 \<longleftrightarrow> (\<forall>n<3. \<not> bit x n)"
  by (auto simp: bit_eq_iff bit_simps dest: bit_imp_le_length)

lemma aligned32_ucast: "BPALIGNED x \<Longrightarrow> aligned32 (ucast x)"
  by (auto simp: al8_take_bit aligned32_take_bit take_bit3_bits bit_simps)

lemma al8_scast: "aligned32 w \<Longrightarrow> BPALIGNED (scast w)"
  by (auto simp: al8_take_bit aligned32_take_bit take_bit3_bits bit_simps)

lemma al8_ucast32: "aligned32 w \<Longrightarrow> BPALIGNED (ucast w)"
  by (auto simp: al8_take_bit aligned32_take_bit take_bit3_bits bit_simps)

lemma aligned32_0 [simp]: "aligned32 0" by (simp add: aligned32_def)

lemma al8_NEXT_FREE: "BPALIGNED bp \<Longrightarrow> aligned32 (GET m (NEXT_PTR bp)) \<Longrightarrow> BPALIGNED (GET_NEXT_FREE m bp)"
  by (simp add: GET_NEXT_FREE_def al8_add al8_scast)

lemma al8_PREV_FREE: "BPALIGNED bp \<Longrightarrow> aligned32 (GET m (PREV_PTR m bp)) \<Longrightarrow> BPALIGNED (GET_PREV_FREE m bp)"
  by (simp add: GET_PREV_FREE_def al8_add al8_scast)

lemma get_list_loop_range:
  "0 \<le> list \<Longrightarrow> list \<le> 19 \<Longrightarrow> 0 \<le> get_list_loop list sz \<and> get_list_loop list sz \<le> 19"
proof (induction list sz rule: get_list_loop.induct)
  case (1 list sz)
  show ?case
  proof (cases "list < NUM_LISTS - 1 \<and> sz > 0")
    case True
    have "get_list_loop list sz = get_list_loop (list + 1) (drop_bit 1 sz)"
      using True by (subst get_list_loop.simps) auto
    moreover have "0 \<le> list + 1" "list + 1 \<le> 19" using True 1(2) by (simp_all add: NUM_LISTS_def)
    ultimately show ?thesis using 1(1)[OF True] by simp
  next
    case False
    have "get_list_loop list sz = list"
      using False by (subst get_list_loop.simps) auto
    then show ?thesis using 1(2,3) by simp
  qed
qed

lemma get_list_range: "0 \<le> get_list sz \<and> get_list sz \<le> 19"
  using get_list_loop_range[of 0 sz] by (simp add: get_list_def)

lemma get_list_nat: "nat (get_list sz) < 20"
  using get_list_range[of sz] by linarith

lemma roots_aligned_root: "roots_aligned st \<Longrightarrow> BPALIGNED (root st (get_list sz))"
  using get_list_nat[of sz] by (simp add: roots_aligned_def root_def list_all_length)

lemma roots_aligned_set_root: "roots_aligned st \<Longrightarrow> BPALIGNED p \<Longrightarrow> roots_aligned (set_root st i p)"
proof -
  assume a: "roots_aligned st" "BPALIGNED p"
  have "\<And>n. n < 20 \<Longrightarrow> BPALIGNED ((free_lists st)[nat i := p] ! n)"
  proof -
    fix n :: nat assume "n < 20"
    then show "BPALIGNED ((free_lists st)[nat i := p] ! n)"
      using a by (cases "n = nat i") (simp_all add: roots_aligned_def list_all_length)
  qed
  then show ?thesis using a by (simp add: roots_aligned_def set_root_def list_all_length)
qed

lemma roots_aligned_mem [simp]: "roots_aligned (st\<lparr>mem := m\<rparr>) = roots_aligned st"
  by (simp add: roots_aligned_def)

lemma root_set_root: "roots_aligned st \<Longrightarrow> root (set_root st (get_list sz) p) (get_list sz) = p"
  using get_list_nat[of sz] by (simp add: roots_aligned_def root_def set_root_def)

lemma same_tags_NP: "BPALIGNED a \<Longrightarrow> BPALIGNED b \<Longrightarrow> same_tags m (SET_PREV_FREE (SET_NEXT_FREE m a x) b y)"
  by (rule same_tags_trans[OF same_tags_SET_NEXT same_tags_SET_PREV])

lemma same_tags_PN: "BPALIGNED a \<Longrightarrow> BPALIGNED b \<Longrightarrow> same_tags m (SET_NEXT_FREE (SET_PREV_FREE m a x) b y)"
  by (rule same_tags_trans[OF same_tags_SET_PREV same_tags_SET_NEXT])

lemma same_tags_PNP:
  "BPALIGNED a \<Longrightarrow> BPALIGNED b \<Longrightarrow> BPALIGNED c
   \<Longrightarrow> same_tags m (SET_PREV_FREE (SET_NEXT_FREE (SET_PREV_FREE m a x) b y) c z)"
  by (rule same_tags_trans[OF same_tags_PN same_tags_SET_PREV])

lemma delete_block_tageq:
  assumes "BPALIGNED (GET_PREV_FREE (mem st) bp)" "BPALIGNED (GET_NEXT_FREE (mem st) bp)"
  shows "same_tags (mem st) (mem (delete_block st bp))"
  using assms
  by (simp add: delete_block_def Let_def set_root_def set_prev_free_def set_next_free_def
      same_tags_SET_NEXT same_tags_SET_PREV same_tags_NP)

lemma delete_block_roots:
  assumes "roots_aligned st" "BPALIGNED (GET_NEXT_FREE (mem st) bp)"
  shows "roots_aligned (delete_block st bp)"
  using assms
  by (auto simp: delete_block_def Let_def set_prev_free_def set_next_free_def NULL_def
      roots_aligned_set_root)

lemma add_block_tageq:
  assumes "BPALIGNED bp" "roots_aligned st"
  shows "same_tags (mem st) (mem (add_block st bp))"
proof -
  let ?r = "root st (get_list (ucast (GET_SIZE (mem st) (HDRP bp))))"
  have r: "BPALIGNED ?r" using assms(2) by (rule roots_aligned_root)
  show ?thesis
    using assms(1) r
    by (simp add: add_block_def Let_def set_root_def set_prev_free_def set_next_free_def root_def
        same_tags_PNP same_tags_PN)
qed

lemma add_block_roots:
  assumes "BPALIGNED bp" "roots_aligned st"
  shows "roots_aligned (add_block st bp)"
  using assms
  by (auto simp: add_block_def Let_def set_prev_free_def set_next_free_def
      intro!: roots_aligned_set_root) 

lemma add_block_root:
  assumes "BPALIGNED bp" "roots_aligned st"
  shows "root (add_block st bp) (get_list (ucast (GET_SIZE (mem st) (HDRP bp)))) = bp"
  using assms get_list_nat[of "ucast (GET_SIZE (mem st) (HDRP bp))"]
  by (auto simp: add_block_def Let_def set_prev_free_def set_next_free_def set_root_def root_def roots_aligned_def)

lemma GET_PUT_link2:
  assumes "BPALIGNED p" "BPALIGNED q"
  shows "GET (PUT m (p + 4) v) (q + 4) = (if q = p then v else GET m (q + 4))"
proof (cases "q = p")
  case True then show ?thesis by (simp add: GET_PUT_same)
next
  case False
  have "(p + 4) AND 3 = 0" using al4_sub[of "- 4" p] al8_and3[OF assms(1)] by simp
  moreover have "(q + 4) AND 3 = 0" using al4_sub[of "- 4" q] al8_and3[OF assms(2)] by simp
  moreover have "q + 4 \<noteq> p + 4" using False by simp
  ultimately show ?thesis using False by (simp add: GET_PUT_aligned)
qed

lemma aligned32_diff: "BPALIGNED a \<Longrightarrow> BPALIGNED b \<Longrightarrow> aligned32 (ucast (a - b))"
  by (simp add: aligned32_ucast al8_sub)

lemma GET_SET_PREV:
  assumes "BPALIGNED a" "BPALIGNED q"
  shows "GET (SET_PREV_FREE m a x) (q + 4) = (if q = FTRP m a then ucast (x - a) else GET m (q + 4))"
  using assms by (simp add: SET_PREV_FREE_def PREV_PTR_link GET_PUT_link2 al8_FTRP)

lemma GET_SET_NEXT:
  assumes "BPALIGNED a" "BPALIGNED q"
  shows "GET (SET_NEXT_FREE m a x) (q + 4) = (if q = HDRP a then ucast (x - a) else GET m (q + 4))"
  using assms by (simp add: SET_NEXT_FREE_def NEXT_PTR_link GET_PUT_link2 al8_HDRP)

lemma add_block_mem:
  "mem (add_block st bp) =
     (let r = root st (get_list (ucast (GET_SIZE (mem st) (HDRP bp))))
      in if r \<noteq> NULL
         then SET_PREV_FREE (SET_NEXT_FREE (SET_PREV_FREE (mem st) r bp) bp r) bp bp
         else SET_NEXT_FREE (SET_PREV_FREE (mem st) bp bp) bp bp)"
  by (simp add: add_block_def Let_def set_root_def set_prev_free_def set_next_free_def root_def)

text \<open>After add_block the new head has no back link and an aligned forward link.\<close>

lemma add_block_links:
  assumes al: "BPALIGNED bp" and ro: "roots_aligned st"
  shows "GET_PREV_FREE (mem (add_block st bp)) bp = 0"
    and "BPALIGNED (GET_NEXT_FREE (mem (add_block st bp)) bp)"
    and "GET (mem (add_block st bp)) (PREV_PTR (mem (add_block st bp)) bp) = 0"
    and "aligned32 (GET (mem (add_block st bp)) (NEXT_PTR bp))"
proof -
  define m where "m = mem st"
  define r where "r = root st (get_list (ucast (GET_SIZE m (HDRP bp))))"
  define m' where "m' = mem (add_block st bp)"
  have r: "BPALIGNED r" unfolding r_def using ro by (rule roots_aligned_root)
  have te: "same_tags m m'" unfolding m_def m'_def using al ro by (rule add_block_tageq)
  have hf: "BPALIGNED (HDRP bp)" "BPALIGNED (FTRP m bp)"
    using al by (simp_all add: al8_HDRP al8_FTRP)
  have pp: "PREV_PTR m' bp = FTRP m bp + 4"
    using same_tags_PREV_PTR[OF te al] by (simp add: PREV_PTR_link)
  have both: "GET m' (FTRP m bp + 4) = 0 \<and> aligned32 (GET m' (HDRP bp + 4))"
  proof (cases "r \<noteq> NULL")
    case True
    define m2 where "m2 = SET_NEXT_FREE (SET_PREV_FREE m r bp) bp r"
    have m': "m' = SET_PREV_FREE m2 bp bp"
      using True by (simp add: m'_def m2_def add_block_mem m_def[symmetric] r_def[symmetric])
    have f2: "FTRP m2 bp = FTRP m bp"
      unfolding m2_def using same_tags_FTRP[OF same_tags_PN[OF r al] al] .
    have "GET m2 (HDRP bp + 4) = ucast (r - bp)"
      unfolding m2_def using al hf by (simp add: GET_SET_NEXT)
    then show ?thesis
      unfolding m' using al hf r by (simp add: GET_SET_PREV f2 aligned32_diff)
  next
    case False
    define m1 where "m1 = SET_PREV_FREE m bp bp"
    have m': "m' = SET_NEXT_FREE m1 bp bp"
      using False by (simp add: m'_def m1_def add_block_mem m_def[symmetric] r_def[symmetric])
    have "GET m1 (FTRP m bp + 4) = 0"
      unfolding m1_def using al hf by (simp add: GET_SET_PREV)
    then show ?thesis
      unfolding m' using al hf by (simp add: GET_SET_NEXT)
  qed
  show "GET_PREV_FREE (mem (add_block st bp)) bp = 0"
    using both pp by (simp add: GET_PREV_FREE_def m'_def)
  show "BPALIGNED (GET_NEXT_FREE (mem (add_block st bp)) bp)"
    using both al by (simp add: al8_NEXT_FREE NEXT_PTR_link m'_def)
  show "GET (mem (add_block st bp)) (PREV_PTR (mem (add_block st bp)) bp) = 0"
    using both pp by (simp add: m'_def)
  show "aligned32 (GET (mem (add_block st bp)) (NEXT_PTR bp))"
    using both by (simp add: NEXT_PTR_link m'_def)
qed

subsection \<open>Tag stores\<close>

lemma size_and_not1: "(w AND NOT 1) AND NOT 7 = (w AND NOT 7 :: 32 word)"
proof -
  have seven: "(7 :: 32 word) = mask 3" by (simp add: mask_eq_exp_minus_1)
  show ?thesis unfolding seven by (rule bit_word_eqI) (auto simp: bit_simps)
qed

lemma size_or1: "(w OR 1) AND NOT 7 = (w AND NOT 7 :: 32 word)"
proof -
  have seven: "(7 :: 32 word) = mask 3" by (simp add: mask_eq_exp_minus_1)
  show ?thesis unfolding seven by (rule bit_word_eqI) (auto simp: bit_simps)
qed

lemma aligned32_size: "aligned32 w \<Longrightarrow> w AND NOT 7 = w"
proof -
  have seven: "(7 :: 32 word) = mask 3" by (simp add: mask_eq_exp_minus_1)
  assume "aligned32 w"
  then have "\<forall>n<3. \<not> bit w n" by (simp add: aligned32_take_bit take_bit3_bits)
  then show ?thesis unfolding seven by (intro bit_word_eqI) (auto simp: bit_simps)
qed

lemma size_and_not1': "(w AND - 2) AND - 8 = (w AND - 8 :: 32 word)"
  using size_and_not1[of w] by simp

lemma size_or1': "(w OR 1) AND - 8 = (w AND - 8 :: 32 word)"
  using size_or1[of w] by simp

lemma aligned32_size': "aligned32 w \<Longrightarrow> w AND - 8 = w"
  using aligned32_size[of w] by simp

lemma aligned32_and1: "aligned32 w \<Longrightarrow> w AND 1 = 0"
proof -
  assume "aligned32 w"
  then have b: "\<not> bit w 0" by (simp add: aligned32_take_bit take_bit3_bits)
  show ?thesis
  proof (rule bit_word_eqI)
    fix n assume "n < LENGTH(32)"
    show "bit (w AND 1) n = bit (0 :: 32 word) n"
      using b by (cases "n = 0") (simp_all add: bit_simps)
  qed
qed

lemma ucast_ucast_small:
  assumes "unat (n :: 64 word) < 2 ^ 32"
  shows "(ucast (ucast n :: 32 word) :: 64 word) = n"
proof -
  have "unat (ucast (ucast n :: 32 word) :: 64 word) = take_bit 32 (unat n)"
    by (simp add: unsigned_ucast_eq unsigned_take_bit_eq)
  also have "\<dots> = unat n" using assms by (rule take_bit_nat_eq_self)
  finally show ?thesis by (simp add: word_unat_eq_iff)
qed

lemma unat_ucast32: "unat (ucast (w :: 32 word) :: 64 word) < 2 ^ 32"
proof -
  have "unat (ucast w :: 64 word) = take_bit 64 (unat w)"
    by (simp add: unsigned_ucast_eq)
  also have "\<dots> \<le> unat w" by simp
  also have "\<dots> < 2 ^ 32" using unsigned_less[of w, where 'a = nat] by simp
  finally show ?thesis .
qed

lemma set_size_tags:
  assumes al: "BPALIGNED bp" "BPALIGNED n" and small: "unat n < 2 ^ 32" and q: "BPALIGNED q"
  shows "GET (mem (set_size st bp n)) q
         = (if q = HDRP bp \<or> q = bp + n - 16 then ucast n else GET (mem st) q)"
proof -
  define m1 where "m1 = PUT (mem st) (HDRP bp) (ucast n)"
  have "GET_SIZE m1 (HDRP bp) = ucast n"
    using al(2) by (simp add: m1_def GET_SIZE_def GET_PUT_same aligned32_size' aligned32_ucast)
  then have f: "FTRP m1 bp = bp + n - 16"
    using small by (simp add: FTRP_def WSIZE_def ucast_ucast_small)
  have fa: "BPALIGNED (bp + n - 16)" using al by (simp add: al8_add al8_sub)
  have "mem (set_size st bp n) = PUT m1 (FTRP m1 bp) (ucast n)"
    unfolding m1_def by (simp add: set_size_def put_def Let_def PACK_def)
  then have "mem (set_size st bp n) = PUT m1 (bp + n - 16) (ucast n)"
    by (simp only: f)
  then show ?thesis
    using q fa al by (simp add: m1_def GET_PUT_tag al8_HDRP)
qed

lemma set_free_tags:
  assumes al: "BPALIGNED bp" and q: "BPALIGNED q"
  shows "GET (mem (set_free st bp)) q
         = (if q = HDRP bp \<or> q = FTRP (mem st) bp then GET (mem st) q AND NOT 1 else GET (mem st) q)"
proof -
  define m1 where "m1 = PUT (mem st) (HDRP bp) (GET (mem st) (HDRP bp) AND NOT 1)"
  have "GET_SIZE m1 (HDRP bp) = GET_SIZE (mem st) (HDRP bp)"
    by (simp add: m1_def GET_SIZE_def GET_PUT_same size_and_not1')
  then have f: "FTRP m1 bp = FTRP (mem st) bp" by (simp add: FTRP_def)
  have fa: "BPALIGNED (FTRP (mem st) bp)" using al by (simp add: al8_FTRP)
  have "mem (set_free st bp) = PUT m1 (FTRP m1 bp) (GET m1 (FTRP m1 bp) AND NOT 1)"
    unfolding m1_def by (simp add: set_free_def Let_def)
  then have "mem (set_free st bp) = PUT m1 (FTRP (mem st) bp) (GET m1 (FTRP (mem st) bp) AND NOT 1)"
    by (simp only: f)
  then show ?thesis
    using q fa al by (auto simp: m1_def GET_PUT_tag al8_HDRP GET_PUT_same word_bw_assocs)
qed

lemma set_alloc_tags:
  assumes al: "BPALIGNED bp" and q: "BPALIGNED q"
  shows "GET (mem (set_alloc st bp)) q
         = (if q = HDRP bp \<or> q = FTRP (mem st) bp then GET (mem st) q OR 1 else GET (mem st) q)"
proof -
  define m1 where "m1 = PUT (mem st) (HDRP bp) (GET (mem st) (HDRP bp) OR 1)"
  have "GET_SIZE m1 (HDRP bp) = GET_SIZE (mem st) (HDRP bp)"
    by (simp add: m1_def GET_SIZE_def GET_PUT_same size_or1')
  then have f: "FTRP m1 bp = FTRP (mem st) bp" by (simp add: FTRP_def)
  have fa: "BPALIGNED (FTRP (mem st) bp)" using al by (simp add: al8_FTRP)
  have "mem (set_alloc st bp) = PUT m1 (FTRP m1 bp) (GET m1 (FTRP m1 bp) OR 1)"
    unfolding m1_def by (simp add: set_alloc_def Let_def)
  then have "mem (set_alloc st bp) = PUT m1 (FTRP (mem st) bp) (GET m1 (FTRP (mem st) bp) OR 1)"
    by (simp only: f)
  then show ?thesis
    using q fa al by (auto simp: m1_def GET_PUT_tag al8_HDRP GET_PUT_same word_bw_assocs)
qed

lemma set_tags_roots [simp]:
  "free_lists (set_size st bp n) = free_lists st"
  "free_lists (set_free st bp) = free_lists st"
  "free_lists (set_alloc st bp) = free_lists st"
  by (simp_all add: set_size_def set_free_def set_alloc_def put_def Let_def)

subsection \<open>The shrink branch of realloc\<close>

lemma al8_align_size: "BPALIGNED (align_size sz)"
  unfolding align_size_def al8_iff DSIZE_def MIN_SIZE_def
  by (cases "sz \<le> 8") (auto intro: exI[of _ 3])

lemma split_big:
  assumes "asize + MIN_SIZE \<le> ucast (GET_SIZE (mem st) (HDRP bp))"
  shows "split st bp asize =
          (let s3 = delete_block st bp;
               s4 = set_size s3 bp asize;
               sb = NEXT_BLKP (mem s4) bp;
               s5 = set_size s4 sb (ucast (GET_SIZE (mem st) (HDRP bp)) - asize)
           in (bp, add_block s5 sb))"
  using assms by (simp add: split_def Let_def)

lemma align_size_unat:
  assumes "unat sz + 23 < 2 ^ 64"
  shows "unat (align_size sz) = (if unat sz \<le> 8 then 24 else 8 * ((unat sz + 23) div 8))"
proof (cases "sz \<le> 8")
  case True
  then show ?thesis by (simp add: align_size_def DSIZE_def MIN_SIZE_def word_le_nat_alt)
next
  case False
  have u: "unat (sz + 23) = unat sz + 23" using assms by (simp add: unat_word_ariths)
  have d: "unat ((sz + 23) div 8) = (unat sz + 23) div 8" by (simp add: unat_div u)
  have "8 * ((unat sz + 23) div 8) \<le> unat sz + 23" by simp
  then have "8 * ((unat sz + 23) div 8) < 2 ^ 64" using assms by linarith
  then have "unat (8 * ((sz + 23) div 8)) = 8 * ((unat sz + 23) div 8)"
    using d by (simp add: unat_word_ariths)
  moreover have "align_size sz = 8 * ((sz + 23) div 8)"
    using False by (simp add: align_size_def DSIZE_def MIN_SIZE_def add.commute)
  ultimately show ?thesis using False by (simp add: word_le_nat_alt)
qed

lemma align_size_bounds:
  assumes "unat sz + 23 < 2 ^ 64"
  shows "24 \<le> unat (align_size sz)" and "unat sz + 16 \<le> unat (align_size sz)"
  using align_size_unat[OF assms] by (auto split: if_splits)

lemma scast_eq_0:
  assumes "(scast (w :: 32 word) :: 64 word) = 0"
  shows "w = 0"
proof (rule bit_word_eqI)
  fix n assume n: "n < LENGTH(32)"
  have "bit (scast w :: 64 word) n = bit w n" using n by (auto simp: bit_signed_iff min_def dest: le_antisym)
  then show "bit w n = bit (0 :: 32 word) n" using assms by simp
qed

lemma next_free_ne_self: "bp \<noteq> 0 \<Longrightarrow> GET_NEXT_FREE m bp \<noteq> bp"
  using scast_eq_0 by (auto simp: GET_NEXT_FREE_def)

lemma or1_after_not1: "(w AND NOT 1) OR 1 = (w OR 1 :: 32 word)"
  by (rule bit_word_eqI) (auto simp: bit_simps)

lemma or1_after_not1': "(w AND - 2) OR 1 = (w OR 1 :: 32 word)"
  using or1_after_not1[of w] by simp

lemma add_delete_roots:
  assumes al: "BPALIGNED ptr" and ro: "roots_aligned s" and nz: "ptr \<noteq> 0"
  shows "\<exists>v. free_lists (delete_block (add_block s ptr) ptr)
              = (free_lists s)[nat (get_list (ucast (GET_SIZE (mem s) (HDRP ptr)))) := v]
            \<and> v \<noteq> ptr"
proof -
  define L where "L = get_list (ucast (GET_SIZE (mem s) (HDRP ptr)))"
  define s2 where "s2 = add_block s ptr"
  have te: "same_tags (mem s) (mem s2)" unfolding s2_def using al ro by (rule add_block_tageq)
  have sz: "GET_SIZE (mem s2) (HDRP ptr) = GET_SIZE (mem s) (HDRP ptr)"
    using same_tags_SIZE[OF te al8_HDRP[OF al]] .
  have fl: "free_lists s2 = (free_lists s)[nat L := ptr]"
    by (simp add: s2_def add_block_def Let_def set_root_def set_prev_free_def set_next_free_def L_def)
  have pv: "GET_PREV_FREE (mem s2) ptr = 0" unfolding s2_def using al ro by (rule add_block_links(1))
  define nx where "nx = GET_NEXT_FREE (mem s2) ptr"
  have nx: "nx \<noteq> ptr" unfolding nx_def using nz by (rule next_free_ne_self)
  have "free_lists (delete_block s2 ptr) = (free_lists s)[nat L := nx]"
    using pv fl
    by (simp add: delete_block_def Let_def sz L_def[symmetric] nx_def[symmetric] LIST_END_def NULL_def
        set_root_def set_prev_free_def)
  then show ?thesis using nx unfolding s2_def L_def by blast
qed

lemma add_block_free_lists:
  "free_lists (add_block st bp)
   = (free_lists st)[nat (get_list (ucast (GET_SIZE (mem st) (HDRP bp)))) := bp]"
  by (simp add: add_block_def Let_def set_root_def set_prev_free_def set_next_free_def)

lemma shrink_tail:
  fixes st :: mstate and ptr newsize :: "64 word"
  defines "oldsize \<equiv> (ucast (GET_SIZE (mem st) (HDRP ptr)) :: 64 word)"
  defines "st' \<equiv> snd (shrink_in_place st ptr newsize)"
  assumes al: "BPALIGNED ptr" and ro: "roots_aligned st" and nal: "BPALIGNED newsize"
    and nzp: "ptr \<noteq> 0" and nz: "newsize \<noteq> 0" and room: "newsize + MIN_SIZE \<le> oldsize" and le: "newsize \<le> oldsize"
  shows "GET (mem st') (HDRP (ptr + newsize)) = ucast (oldsize - newsize)
       \<and> GET (mem st') (FTRP (mem st') (ptr + newsize)) = ucast (oldsize - newsize)
       \<and> root st' (get_list (oldsize - newsize)) = ptr + newsize
       \<and> GET (mem st') (HDRP ptr) = ucast newsize OR 1
       \<and> GET (mem st') (ptr + newsize - 16) = ucast newsize OR 1
       \<and> (\<exists>v. free_lists st'
                = (free_lists st)[nat (get_list oldsize) := v, nat (get_list (oldsize - newsize)) := ptr + newsize]
              \<and> v \<noteq> ptr)"
proof -
  define tail where "tail = oldsize - newsize"
  define sb where "sb = ptr + newsize"
  have o32: "unat oldsize < 2 ^ 32" unfolding oldsize_def by (rule unat_ucast32)
  have nle: "unat newsize \<le> unat oldsize" using le by (simp add: word_le_nat_alt)
  have "unat (newsize + 24) = unat newsize + 24"
    using nle o32 by (simp add: unat_word_ariths)
  then have un: "unat newsize + 24 \<le> unat oldsize"
    using room by (simp add: word_le_nat_alt MIN_SIZE_def)
  have n32: "unat newsize < 2 ^ 32" using nle o32 by simp
  have ut: "unat tail = unat oldsize - unat newsize"
    unfolding tail_def using le by (simp add: unat_sub)
  have t32: "unat tail < 2 ^ 32" using ut o32 by simp
  have tnz: "tail \<noteq> 0" using ut un by (auto simp: unat_eq_zero[symmetric] simp del: unat_eq_zero)
  have o8: "oldsize \<noteq> 8" using un by auto
  have oal: "BPALIGNED oldsize" unfolding oldsize_def by (rule al8_ucast_size)
  have tal: "BPALIGNED tail" unfolding tail_def using oal nal by (rule al8_sub)
  have sbal: "BPALIGNED sb" unfolding sb_def using al nal by (rule al8_add)
  have ot: "ptr + oldsize = sb + tail" by (simp add: sb_def tail_def)
  \<comment> \<open>the states of the branch\<close>
  define s1 where "s1 = set_free st ptr"
  define s2 where "s2 = add_block s1 ptr"
  define s3 where "s3 = delete_block s2 ptr"
  define s4 where "s4 = set_size s3 ptr newsize"
  define s5 where "s5 = set_size s4 sb tail"
  define s6 where "s6 = add_block s5 sb"
  define s7 where "s7 = set_alloc s6 ptr"
  have h: "BPALIGNED (HDRP ptr)" "BPALIGNED (HDRP sb)" using al sbal by (simp_all add: al8_HDRP)
  have r1: "roots_aligned s1" using ro by (simp add: roots_aligned_def s1_def)
  have g1: "GET_SIZE (mem s1) (HDRP ptr) = GET_SIZE (mem st) (HDRP ptr)"
    using set_free_tags[OF al h(1), of st]
    by (simp add: s1_def GET_SIZE_def size_and_not1')
  have te2: "same_tags (mem s1) (mem s2)" unfolding s2_def using al r1 by (rule add_block_tageq)
  have r2: "roots_aligned s2" unfolding s2_def using al r1 by (rule add_block_roots)
  have g2: "ucast (GET_SIZE (mem s2) (HDRP ptr)) = oldsize"
    using same_tags_SIZE[OF te2 h(1)] g1 by (simp add: oldsize_def)
  have l2: "BPALIGNED (GET_PREV_FREE (mem s2) ptr)" "BPALIGNED (GET_NEXT_FREE (mem s2) ptr)"
    unfolding s2_def using add_block_links[OF al r1] by simp_all
  have te3: "same_tags (mem s2) (mem s3)" unfolding s3_def using l2 by (rule delete_block_tageq)
  have r3: "roots_aligned s3" unfolding s3_def using r2 l2(2) by (rule delete_block_roots)
  have t4: "\<And>q. BPALIGNED q \<Longrightarrow> GET (mem s4) q
              = (if q = HDRP ptr \<or> q = ptr + newsize - 16 then ucast newsize else GET (mem s3) q)"
    unfolding s4_def using al nal n32 by (rule set_size_tags)
  have "GET_SIZE (mem s4) (HDRP ptr) = ucast newsize"
    using t4[OF h(1)] nal by (simp add: GET_SIZE_def aligned32_size' aligned32_ucast)
  then have nb: "NEXT_BLKP (mem s4) ptr = sb"
    using n32 by (simp add: NEXT_BLKP_def sb_def ucast_ucast_small)
  have sp: "split s2 ptr newsize = (ptr, s6)"
    using split_big[of newsize s2 ptr] room g2
    by (simp add: Let_def s3_def[symmetric] s4_def[symmetric] nb tail_def[symmetric]
        s5_def[symmetric] s6_def[symmetric])
  have st': "st' = s7"
    by (simp add: st'_def shrink_in_place_def Let_def s1_def[symmetric] s2_def[symmetric] sp s7_def)
  have r5: "roots_aligned s5" using r3 by (simp add: roots_aligned_def s5_def s4_def)
  have t5: "\<And>q. BPALIGNED q \<Longrightarrow> GET (mem s5) q
              = (if q = HDRP sb \<or> q = sb + tail - 16 then ucast tail else GET (mem s4) q)"
    unfolding s5_def using sbal tal t32 by (rule set_size_tags)
  have te6: "same_tags (mem s5) (mem s6)" unfolding s6_def using sbal r5 by (rule add_block_tageq)
  have g5: "GET_SIZE (mem s5) (HDRP sb) = ucast tail"
    using t5[OF h(2)] tal by (simp add: GET_SIZE_def aligned32_size' aligned32_ucast)
  have root6: "root s6 (get_list tail) = sb"
    using add_block_root[OF sbal r5] g5 t32 by (simp add: s6_def ucast_ucast_small)
  have d1: "HDRP ptr \<noteq> HDRP sb" using nz by (simp add: HDRP_def sb_def)
  have d2: "HDRP ptr \<noteq> sb + tail - 16"
  proof
    assume "HDRP ptr = sb + tail - 16"
    then have "ptr - 8 = ptr + oldsize - 16" by (simp add: HDRP_def WSIZE_def ot)
    then have "oldsize = 8" by (simp add: algebra_simps)
    then show False using o8 by simp
  qed
  have hp6: "GET (mem s6) (HDRP ptr) = ucast newsize"
    using same_tags_GET[OF te6 h(1)] t5[OF h(1)] t4[OF h(1)] d1 d2 by simp
  then have "GET_SIZE (mem s6) (HDRP ptr) = ucast newsize"
    using nal by (simp add: GET_SIZE_def aligned32_size' aligned32_ucast)
  then have f6: "FTRP (mem s6) ptr = sb - 16"
    using n32 by (simp add: FTRP_def WSIZE_def sb_def ucast_ucast_small)
  have t7: "\<And>q. BPALIGNED q \<Longrightarrow> GET (mem s7) q
              = (if q = HDRP ptr \<or> q = sb - 16 then GET (mem s6) q OR 1 else GET (mem s6) q)"
    using set_alloc_tags[OF al, of _ s6] by (simp add: s7_def f6)
  have d3: "HDRP sb \<noteq> sb - 16" by (simp add: HDRP_def WSIZE_def)
  have hs7: "GET (mem s7) (HDRP sb) = ucast tail"
    using t7[OF h(2)] d1 d3 same_tags_GET[OF te6 h(2)] t5[OF h(2)] by simp
  then have "GET_SIZE (mem s7) (HDRP sb) = ucast tail"
    using tal by (simp add: GET_SIZE_def aligned32_size' aligned32_ucast)
  then have f7: "FTRP (mem s7) sb = sb + tail - 16"
    using t32 by (simp add: FTRP_def WSIZE_def ucast_ucast_small)
  have fal: "BPALIGNED (sb + tail - 16)" using sbal tal by (simp add: al8_add al8_sub)
  have d4: "sb + tail - 16 \<noteq> sb - 16" using tnz by simp
  have fs7: "GET (mem s7) (sb + tail - 16) = ucast tail"
    using t7[OF fal] d2 d4 same_tags_GET[OF te6 fal] t5[OF fal] by simp
  have root7: "root s7 (get_list tail) = sb"
    using root6 by (simp add: s7_def root_def)
  have hp7: "GET (mem s7) (HDRP ptr) = ucast newsize OR 1"
    using t7[OF h(1)] hp6 by simp
  have pal: "BPALIGNED (sb - 16)" using sbal by (simp add: al8_sub)
  have "GET (mem s6) (sb - 16) = ucast newsize"
    using same_tags_GET[OF te6 pal] t5[OF pal] t4[OF pal] d3 d4 by (simp add: sb_def)
  then have fp7: "GET (mem s7) (sb - 16) = ucast newsize OR 1"
    using t7[OF pal] by simp
  have "free_lists s1 = free_lists st" by (simp add: s1_def)
  then obtain v where v: "free_lists s3 = (free_lists st)[nat (get_list oldsize) := v]" "v \<noteq> ptr"
    using add_delete_roots[OF al r1 nzp] g1 by (auto simp: s3_def s2_def oldsize_def)
  have "free_lists s7 = (free_lists s5)[nat (get_list tail) := sb]"
    using g5 t32 by (simp add: s7_def s6_def add_block_free_lists ucast_ucast_small)
  then have fl7: "free_lists s7 = (free_lists st)[nat (get_list oldsize) := v, nat (get_list tail) := sb]"
    using v(1) by (simp add: s5_def s4_def)
  have fl: "\<exists>v. free_lists s7
                = (free_lists st)[nat (get_list oldsize) := v, nat (get_list tail) := sb]
              \<and> v \<noteq> ptr"
    using fl7 v(2) by blast
  show ?thesis
    using hs7 fs7 f7 root7 hp7 fp7 fl by (simp add: st' sb_def[symmetric] tail_def[symmetric])
qed

lemma shrink_whole:
  fixes st :: mstate and ptr newsize :: "64 word"
  defines "oldsize \<equiv> (ucast (GET_SIZE (mem st) (HDRP ptr)) :: 64 word)"
  defines "st' \<equiv> snd (shrink_in_place st ptr newsize)"
  assumes al: "BPALIGNED ptr" and ro: "roots_aligned st" and nz: "ptr \<noteq> 0"
    and noroom: "\<not> newsize + MIN_SIZE \<le> oldsize" and q: "BPALIGNED q"
  shows "GET (mem st') q
          = (if q = HDRP ptr \<or> q = FTRP (mem st) ptr then GET (mem st) q OR 1 else GET (mem st) q)"
    and "\<exists>v. free_lists st'
              = (free_lists st)[nat (get_list (ucast (GET_SIZE (mem st) (HDRP ptr)))) := v]
            \<and> v \<noteq> ptr"
proof -
  define s1 where "s1 = set_free st ptr"
  define s2 where "s2 = add_block s1 ptr"
  define s3 where "s3 = delete_block s2 ptr"
  define s7 where "s7 = set_alloc s3 ptr"
  have h: "BPALIGNED (HDRP ptr)" using al by (simp add: al8_HDRP)
  have r1: "roots_aligned s1" using ro by (simp add: roots_aligned_def s1_def)
  have t1: "\<And>q. BPALIGNED q \<Longrightarrow> GET (mem s1) q
     = (if q = HDRP ptr \<or> q = FTRP (mem st) ptr then GET (mem st) q AND NOT 1 else GET (mem st) q)"
    unfolding s1_def using al by (rule set_free_tags)
  have g1: "GET_SIZE (mem s1) (HDRP ptr) = GET_SIZE (mem st) (HDRP ptr)"
    using t1[OF h] by (simp add: GET_SIZE_def size_and_not1')
  have te2: "same_tags (mem s1) (mem s2)" unfolding s2_def using al r1 by (rule add_block_tageq)
  have l2: "BPALIGNED (GET_PREV_FREE (mem s2) ptr)" "BPALIGNED (GET_NEXT_FREE (mem s2) ptr)"
    unfolding s2_def using add_block_links[OF al r1] by simp_all
  have te3: "same_tags (mem s2) (mem s3)" unfolding s3_def using l2 by (rule delete_block_tageq)
  have g2: "ucast (GET_SIZE (mem s2) (HDRP ptr)) = oldsize"
    using same_tags_SIZE[OF te2 h] g1 by (simp add: oldsize_def)
  have g3: "GET_SIZE (mem s3) (HDRP ptr) = GET_SIZE (mem st) (HDRP ptr)"
    using same_tags_SIZE[OF te3 h] same_tags_SIZE[OF te2 h] g1 by simp
  have sp: "split s2 ptr newsize = (ptr, s3)"
    using noroom g2 by (simp add: split_def Let_def s3_def)
  have st': "st' = s7"
    by (simp add: st'_def shrink_in_place_def Let_def s1_def[symmetric] s2_def[symmetric] sp s7_def)
  have f3: "FTRP (mem s3) ptr = FTRP (mem st) ptr" using g3 by (simp add: FTRP_def)
  have t7: "GET (mem s7) q
     = (if q = HDRP ptr \<or> q = FTRP (mem st) ptr then GET (mem s3) q OR 1 else GET (mem s3) q)"
    using set_alloc_tags[OF al q, of s3] by (simp add: s7_def f3)
  have "GET (mem s3) q = GET (mem s1) q"
    using same_tags_GET[OF te3 q] same_tags_GET[OF te2 q] by simp
  then show "GET (mem st') q
          = (if q = HDRP ptr \<or> q = FTRP (mem st) ptr then GET (mem st) q OR 1 else GET (mem st) q)"
    using t7 t1[OF q] by (simp add: st' or1_after_not1')
  have "free_lists s7 = free_lists s3" by (simp add: s7_def)
  moreover have "free_lists s1 = free_lists st" by (simp add: s1_def)
  ultimately show "\<exists>v. free_lists st'
              = (free_lists st)[nat (get_list (ucast (GET_SIZE (mem st) (HDRP ptr)))) := v]
            \<and> v \<noteq> ptr"
    using add_delete_roots[OF al r1 nz] g1 by (simp add: st' s3_def s2_def)
qed

subsection \<open>Block segments\<close>

lemma unat_size64: "unat (ucast (GET_SIZE m q) :: 64 word) = unat (GET_SIZE m q)"
  by (simp add: unsigned_ucast_eq take_bit_nat_eq_self
        order_less_le_trans[OF unsigned_less[of "GET_SIZE m q", where 'a = nat]])

lemma unat_NEXT_BLKP:
  "unat bp + blk_size m bp \<le> unat (e :: 64 word) \<Longrightarrow> unat (NEXT_BLKP m bp) = unat bp + blk_size m bp"
proof -
  assume a: "unat bp + blk_size m bp \<le> unat e"
  have "unat e < 2 ^ 64" using unsigned_less[of e, where 'a = nat] by simp
  then show ?thesis using a by (simp add: NEXT_BLKP_def unat_word_ariths unat_size64 blk_size_def)
qed

lemma heap_blocks_seg: "heap_blocks m e p = Some bs \<longleftrightarrow> seg m p bs e"
proof (induction m e p arbitrary: bs rule: heap_blocks.induct)
  case (1 m e p)
  show ?case
  proof (cases "p = e")
    case True
    have "heap_blocks m e p = Some []" using True by (subst heap_blocks.simps) simp
    moreover have "seg m p bs e \<longleftrightarrow> bs = []" using True by (cases bs) auto
    ultimately show ?thesis by auto
  next
    case False
    show ?thesis
    proof (cases "16 \<le> blk_size m p \<and> unat p + blk_size m p \<le> unat e")
      case True
      have hb: "heap_blocks m e p = map_option ((#) p) (heap_blocks m e (NEXT_BLKP m p))"
        using False True by (subst heap_blocks.simps) simp
      show ?thesis
      proof (cases bs)
        case Nil
        then show ?thesis using hb False by (auto)
      next
        case (Cons b bs')
        then show ?thesis using hb 1[OF False True, of bs'] True by auto
      qed
    next
      case F2: False
      have "heap_blocks m e p = None" using False F2 by (subst heap_blocks.simps) auto
      moreover have "\<not> seg m p bs e" using False F2 by (cases bs) auto
      ultimately show ?thesis by simp
    qed
  qed
qed

lemma seg_le: "seg m p bs x \<Longrightarrow> unat p \<le> unat x"
proof (induction bs arbitrary: p)
  case Nil then show ?case by simp
next
  case (Cons b bs)
  then have "unat (NEXT_BLKP m p) \<le> unat x" by simp
  then show ?case using Cons.prems unat_NEXT_BLKP[of p m x] by simp
qed

lemma seg_append:
  "seg m p (as @ bs) x \<longleftrightarrow> (\<exists>y. seg m p as y \<and> seg m y bs x)"
proof (induction as arbitrary: p)
  case Nil then show ?case by simp
next
  case (Cons a as)
  show ?case
  proof
    assume l: "seg m p ((a # as) @ bs) x"
    then obtain y where y: "seg m (NEXT_BLKP m p) as y" "seg m y bs x"
      using Cons.IH[of "NEXT_BLKP m p"] by auto
    have "unat (NEXT_BLKP m p) = unat p + blk_size m p"
      using l unat_NEXT_BLKP[of p m x] by simp
    then have "unat p + blk_size m p \<le> unat y" using seg_le[OF y(1)] by simp
    then have "seg m p (a # as) y" using l y(1) by simp
    then show "\<exists>y. seg m p (a # as) y \<and> seg m y bs x" using y(2) by blast
  next
    assume "\<exists>y. seg m p (a # as) y \<and> seg m y bs x"
    then obtain y where y: "seg m p (a # as) y" "seg m y bs x" by blast
    have "unat y \<le> unat x" using seg_le[OF y(2)] .
    then show "seg m p ((a # as) @ bs) x"
      using y Cons.IH[of "NEXT_BLKP m p"] by auto
  qed
qed

lemma seg_frame:
  "seg m p bs x \<Longrightarrow> (\<forall>b \<in> set bs. GET_SIZE m' (HDRP b) = GET_SIZE m (HDRP b)) \<Longrightarrow> seg m' p bs x"
proof (induction bs arbitrary: p)
  case Nil then show ?case by simp
next
  case (Cons b bs)
  then have e: "GET_SIZE m' (HDRP p) = GET_SIZE m (HDRP p)" by simp
  then have "NEXT_BLKP m' p = NEXT_BLKP m p" "blk_size m' p = blk_size m p"
    by (simp_all add: NEXT_BLKP_def blk_size_def)
  then show ?case using Cons by simp
qed

lemma seg_mem:
  "seg m p bs x \<Longrightarrow> b \<in> set bs
   \<Longrightarrow> unat p \<le> unat b \<and> unat b + blk_size m b \<le> unat x \<and> 16 \<le> blk_size m b"
proof (induction bs arbitrary: p)
  case Nil then show ?case by simp
next
  case (Cons a bs)
  show ?case
  proof (cases "b = a")
    case True then show ?thesis using Cons.prems by simp
  next
    case False
    then have "b \<in> set bs" using Cons.prems by simp
    moreover have s: "seg m (NEXT_BLKP m p) bs x" using Cons.prems by simp
    ultimately have "unat (NEXT_BLKP m p) \<le> unat b \<and> unat b + blk_size m b \<le> unat x \<and> 16 \<le> blk_size m b"
      using Cons.IH by blast
    moreover have "unat (NEXT_BLKP m p) = unat p + blk_size m p"
      using Cons.prems unat_NEXT_BLKP[of p m x] by simp
    ultimately show ?thesis by simp
  qed
qed

lemma seg_al8:
  "BPALIGNED p \<Longrightarrow> seg m p bs x \<Longrightarrow> BPALIGNED x \<and> (\<forall>b \<in> set bs. BPALIGNED b)"
proof (induction bs arbitrary: p)
  case Nil then show ?case by simp
next
  case (Cons a bs)
  have "BPALIGNED (NEXT_BLKP m p)" using Cons.prems(1) by (rule al8_NEXT_BLKP)
  then show ?case using Cons by auto
qed

lemma seg_single: "seg m p [p] x \<longleftrightarrow> 16 \<le> blk_size m p \<and> unat p + blk_size m p \<le> unat x \<and> NEXT_BLKP m p = x"
  by auto

lemma seg_split:
  assumes "seg m p bs x" "b \<in> set bs"
  shows "\<exists>pre post. bs = pre @ b # post \<and> seg m p pre b \<and> seg m b [b] (NEXT_BLKP m b)
                   \<and> seg m (NEXT_BLKP m b) post x"
proof -
  obtain pre post where d: "bs = pre @ b # post" using assms(2) by (meson split_list)
  then obtain y where y: "seg m p pre y" "seg m y (b # post) x"
    using assms(1) seg_append by blast
  then have yb: "y = b" by simp
  have "seg m (NEXT_BLKP m b) post x" using y(2) yb by simp
  moreover have "unat (NEXT_BLKP m b) = unat b + blk_size m b"
    using y(2) yb unat_NEXT_BLKP[of b m x] by simp
  then have "seg m b [b] (NEXT_BLKP m b)" using y(2) yb by simp
  ultimately show ?thesis using d y(1) yb by blast
qed

lemma unat_HDRP: "8 \<le> unat b \<Longrightarrow> unat (HDRP b) = unat b - 8"
  by (simp add: HDRP_def WSIZE_def unat_sub word_le_nat_alt)

lemma unat_FTRP:
  assumes "16 \<le> blk_size m b" "unat b + blk_size m b \<le> unat (x :: 64 word)"
  shows "unat (FTRP m b) = unat b + blk_size m b - 16"
proof -
  have n: "unat (NEXT_BLKP m b) = unat b + blk_size m b" using assms(2) by (rule unat_NEXT_BLKP)
  have "FTRP m b = NEXT_BLKP m b - 16" by (simp add: FTRP_def NEXT_BLKP_def WSIZE_def)
  moreover have "16 \<le> unat (NEXT_BLKP m b)" using n assms(1) by simp
  ultimately show ?thesis using n by (simp add: unat_sub word_le_nat_alt)
qed

lemma block_tags_same:
  assumes al: "BPALIGNED b" and g: "GET m' (HDRP b) = GET m (HDRP b)"
    and f: "GET m' (FTRP m b) = GET m (FTRP m b)"
  shows "blk_size m' b = blk_size m b" "NEXT_BLKP m' b = NEXT_BLKP m b" "FTRP m' b = FTRP m b"
    "PREV_PTR m' b = PREV_PTR m b" "is_free m' b = is_free m b" "HEF m' b = HEF m b"
proof -
  have s: "GET_SIZE m' (HDRP b) = GET_SIZE m (HDRP b)" using g by (simp add: GET_SIZE_def)
  show "blk_size m' b = blk_size m b" using s by (simp add: blk_size_def)
  show "NEXT_BLKP m' b = NEXT_BLKP m b" using s by (simp add: NEXT_BLKP_def)
  show ft: "FTRP m' b = FTRP m b" using s by (simp add: FTRP_def)
  show "PREV_PTR m' b = PREV_PTR m b" using ft by (simp add: PREV_PTR_def)
  show "is_free m' b = is_free m b" using g by (simp add: is_free_def GET_ALLOC_def)
  show "HEF m' b = HEF m b" using g f ft by (simp add: HEF_def)
qed

lemma frame_below:
  assumes fr: "frame m m' lo hi" and sg: "seg m p pre x" and b: "b \<in> set pre"
    and p8: "8 \<le> unat p" and pal: "BPALIGNED p" and lo: "unat x \<le> lo + 8"
  shows "GET m' (HDRP b) = GET m (HDRP b) \<and> GET m' (FTRP m b) = GET m (FTRP m b)"
proof -
  have bb: "unat p \<le> unat b" "unat b + blk_size m b \<le> unat x" "16 \<le> blk_size m b"
    using seg_mem[OF sg b] by simp_all
  have bal: "BPALIGNED b" using seg_al8[OF pal sg] b by simp
  have "unat (HDRP b) < lo" using unat_HDRP[of b] bb p8 lo by simp
  moreover have "unat (FTRP m b) < lo" using unat_FTRP[OF bb(3,2)] bb lo by simp
  ultimately show ?thesis
    using fr bal by (simp add: frame_def al8_HDRP al8_FTRP)
qed

lemma frame_above:
  assumes fr: "frame m m' lo hi" and sg: "seg m x post e" and b: "b \<in> set post"
    and x8: "8 \<le> unat x" and xal: "BPALIGNED x" and hi: "hi + 8 \<le> unat x"
  shows "GET m' (HDRP b) = GET m (HDRP b) \<and> GET m' (FTRP m b) = GET m (FTRP m b)"
proof -
  have bb: "unat x \<le> unat b" "unat b + blk_size m b \<le> unat e" "16 \<le> blk_size m b"
    using seg_mem[OF sg b] by simp_all
  have bal: "BPALIGNED b" using seg_al8[OF xal sg] b by simp
  have "hi \<le> unat (HDRP b)" using unat_HDRP[of b] bb x8 hi by simp
  moreover have "hi \<le> unat (FTRP m b)" using unat_FTRP[OF bb(3,2)] bb hi by simp
  ultimately show ?thesis
    using fr bal by (simp add: frame_def al8_HDRP al8_FTRP)
qed

lemma no_adj_cong:
  "(\<forall>b \<in> set bs. is_free m' b = is_free m b) \<Longrightarrow> no_adjacent_free m' bs = no_adjacent_free m bs"
  by (induction m bs rule: no_adjacent_free.induct) auto

lemma no_adj_append:
  "no_adjacent_free m (as @ b # cs) \<longleftrightarrow> no_adjacent_free m (as @ [b]) \<and> no_adjacent_free m (b # cs)"
  by (induction m as rule: no_adjacent_free.induct) auto

lemma no_adj_snoc:
  "no_adjacent_free m (as @ [b]) \<longleftrightarrow> no_adjacent_free m as \<and> (as \<noteq> [] \<longrightarrow> \<not> (is_free m (last as) \<and> is_free m b))"
  by (induction m as rule: no_adjacent_free.induct) auto

lemma no_adj_cons:
  "no_adjacent_free m (b # cs) \<longleftrightarrow> no_adjacent_free m cs \<and> (cs \<noteq> [] \<longrightarrow> \<not> (is_free m b \<and> is_free m (hd cs)))"
  by (cases cs) auto

lemma links_aligned_mono:
  assumes lm: "link_mono m m'" and bal: "BPALIGNED b" and pp: "PREV_PTR m' b = PREV_PTR m b"
    and la: "links_aligned m b"
  shows "links_aligned m' b"
proof -
  have "aligned32 (GET m' (HDRP b + 4))"
    using lm la bal by (simp add: link_mono_def links_aligned_def NEXT_PTR_link al8_HDRP)
  moreover have "aligned32 (GET m' (FTRP m b + 4))"
    using lm la bal by (simp add: link_mono_def links_aligned_def PREV_PTR_link al8_FTRP)
  ultimately show ?thesis
    using pp by (simp add: links_aligned_def NEXT_PTR_link PREV_PTR_link)
qed

lemma merge_blocks:
  assumes pre: "seg m h pre M" and post: "seg m xe post e"
    and h: "BPALIGNED h" "8 \<le> unat h" and xal: "BPALIGNED xe"
    and fr: "frame m m' (unat M - 8) (unat xe - 8)" and lm: "link_mono m m'"
    and sz: "GET_SIZE m' (HDRP M) = ucast (xe - M)"
    and t16: "unat M + 16 \<le> unat xe" and t32: "unat xe - unat M < 2 ^ 32"
    and Mfree: "is_free m' M" and Mhef: "HEF m' M" and Mlinks: "links_aligned m' M"
    and hef: "list_all (HEF m) (pre @ post)"
    and la: "list_all (\<lambda>b. is_free m b \<longrightarrow> links_aligned m b) (pre @ post)"
    and na: "no_adjacent_free m pre" "no_adjacent_free m post"
    and nb: "pre \<noteq> [] \<longrightarrow> \<not> is_free m (last pre)" "post \<noteq> [] \<longrightarrow> \<not> is_free m (hd post)"
  shows "seg m' h (pre @ M # post) e"
    and "list_all (HEF m') (pre @ M # post)"
    and "no_adjacent_free m' (pre @ M # post)"
    and "list_all (\<lambda>b. is_free m' b \<longrightarrow> links_aligned m' b) (pre @ M # post)"
    and "\<forall>b \<in> set (pre @ post). is_free m' b = is_free m b"
    and "\<forall>b \<in> set (pre @ post). GET m' (HDRP b) = GET m (HDRP b)"
proof -
  have M8: "8 \<le> unat M" using seg_le[OF pre] h(2) by simp
  have Mal: "BPALIGNED M" using seg_al8[OF h(1) pre] by simp
  have x8: "8 \<le> unat xe" using M8 t16 by simp
  have same_pre: "\<And>b. b \<in> set pre \<Longrightarrow>
      GET m' (HDRP b) = GET m (HDRP b) \<and> GET m' (FTRP m b) = GET m (FTRP m b)"
    using frame_below[OF fr pre _ h(2) h(1)] M8 by simp
  have same_post: "\<And>b. b \<in> set post \<Longrightarrow>
      GET m' (HDRP b) = GET m (HDRP b) \<and> GET m' (FTRP m b) = GET m (FTRP m b)"
    using frame_above[OF fr post _ x8 xal] x8 by simp
  have al_pre: "\<And>b. b \<in> set pre \<Longrightarrow> BPALIGNED b" using seg_al8[OF h(1) pre] by simp
  have al_post: "\<And>b. b \<in> set post \<Longrightarrow> BPALIGNED b" using seg_al8[OF xal post] by simp
  have same: "\<And>b. b \<in> set (pre @ post) \<Longrightarrow>
      BPALIGNED b \<and> GET m' (HDRP b) = GET m (HDRP b) \<and> GET m' (FTRP m b) = GET m (FTRP m b)"
    using same_pre same_post al_pre al_post by auto
  have s1: "seg m' h pre M"
    using seg_frame[OF pre] same_pre by (simp add: GET_SIZE_def)
  have s3: "seg m' xe post e"
    using seg_frame[OF post] same_post by (simp add: GET_SIZE_def)
  have ux: "unat (xe - M) = unat xe - unat M"
    using t16 by (simp add: unat_sub word_le_nat_alt)
  then have u32: "unat (xe - M) < 2 ^ 32" using t32 by simp
  have bs: "blk_size m' M = unat xe - unat M"
    using sz u32 ux by (simp add: blk_size_def unsigned_ucast_eq take_bit_nat_eq_self)
  have "NEXT_BLKP m' M = M + (xe - M)"
    using sz u32 by (simp add: NEXT_BLKP_def ucast_ucast_small)
  then have nx: "NEXT_BLKP m' M = xe" by simp
  have s2: "seg m' M [M] xe" using bs nx t16 by simp
  have "unat xe \<le> unat e" using seg_le[OF s3] .
  then have "seg m' M (M # post) e" using bs nx t16 s3 by simp
  then show "seg m' h (pre @ M # post) e"
    using s1 seg_append[of m' h pre "M # post" e] by blast
  show fe: "\<forall>b \<in> set (pre @ post). is_free m' b = is_free m b"
    using same block_tags_same(5) by blast
  show "\<forall>b \<in> set (pre @ post). GET m' (HDRP b) = GET m (HDRP b)"
    using same by blast
  have he: "\<And>b. b \<in> set (pre @ post) \<Longrightarrow> HEF m' b"
    using same block_tags_same(6) hef by (metis list_all_iff)
  show "list_all (HEF m') (pre @ M # post)"
    using he Mhef by (auto simp: list_all_iff)
  have li: "\<And>b. b \<in> set (pre @ post) \<Longrightarrow> is_free m' b \<Longrightarrow> links_aligned m' b"
  proof -
    fix b assume b: "b \<in> set (pre @ post)" and f: "is_free m' b"
    have sb: "BPALIGNED b" "GET m' (HDRP b) = GET m (HDRP b)" "GET m' (FTRP m b) = GET m (FTRP m b)"
      using same[OF b] by simp_all
    have "is_free m b" using f fe b by simp
    then have "links_aligned m b" using la b by (auto simp: list_all_iff)
    then show "links_aligned m' b"
      using links_aligned_mono[OF lm sb(1) block_tags_same(4)[OF sb]] by simp
  qed
  show "list_all (\<lambda>b. is_free m' b \<longrightarrow> links_aligned m' b) (pre @ M # post)"
    using li Mlinks by (auto simp: list_all_iff)
  have n1: "no_adjacent_free m' pre" using na(1) no_adj_cong[of pre m' m] fe by simp
  have n2: "no_adjacent_free m' post" using na(2) no_adj_cong[of post m' m] fe by simp
  have l1: "pre \<noteq> [] \<longrightarrow> \<not> is_free m' (last pre)" using nb(1) fe by simp
  have l2: "post \<noteq> [] \<longrightarrow> \<not> is_free m' (hd post)" using nb(2) fe by simp
  show "no_adjacent_free m' (pre @ M # post)"
    using n1 n2 l1 l2 by (simp add: no_adj_append[of m' pre M post] no_adj_snoc no_adj_cons)
qed

subsection \<open>Free-list stores keep tags and aligned links\<close>

lemma link_mono_refl [simp]: "link_mono m m" by (simp add: link_mono_def)

lemma link_mono_trans: "link_mono a b \<Longrightarrow> link_mono b c \<Longrightarrow> link_mono a c"
  by (simp add: link_mono_def)

lemma GET_link_PUT_tag:
  assumes "BPALIGNED p" "BPALIGNED q"
  shows "GET (PUT m p v) (q + 4) = GET m (q + 4)"
proof -
  have "p AND 3 = 0" using al8_and3[OF assms(1)] .
  moreover have "(q + 4) AND 3 = 0" using al4_sub[of "- 4" q] al8_and3[OF assms(2)] by simp
  moreover have "q + 4 \<noteq> p" using al8_link_ne[OF assms(2,1)] by simp
  ultimately show ?thesis by (rule GET_PUT_aligned)
qed

lemma link_mono_PUT_tag: "BPALIGNED p \<Longrightarrow> link_mono m (PUT m p v)"
  by (simp add: link_mono_def GET_link_PUT_tag)

lemma link_mono_SET_PREV: "BPALIGNED a \<Longrightarrow> BPALIGNED x \<Longrightarrow> link_mono m (SET_PREV_FREE m a x)"
  by (simp add: link_mono_def GET_SET_PREV aligned32_diff)

lemma link_mono_SET_NEXT: "BPALIGNED a \<Longrightarrow> BPALIGNED x \<Longrightarrow> link_mono m (SET_NEXT_FREE m a x)"
  by (simp add: link_mono_def GET_SET_NEXT aligned32_diff)

lemma set_free_link_mono: "BPALIGNED bp \<Longrightarrow> link_mono (mem st) (mem (set_free st bp))"
  by (simp add: set_free_def Let_def)
     (rule link_mono_trans[OF link_mono_PUT_tag link_mono_PUT_tag], simp_all add: al8_HDRP al8_FTRP)

lemma set_size_link_mono: "BPALIGNED bp \<Longrightarrow> link_mono (mem st) (mem (set_size st bp n))"
  by (simp add: set_size_def put_def Let_def)
     (rule link_mono_trans[OF link_mono_PUT_tag link_mono_PUT_tag], simp_all add: al8_HDRP al8_FTRP)

lemma delete_block_link_mono:
  assumes "BPALIGNED (GET_PREV_FREE (mem st) bp)" "BPALIGNED (GET_NEXT_FREE (mem st) bp)"
  shows "link_mono (mem st) (mem (delete_block st bp))"
  using assms
  by (simp add: delete_block_def Let_def set_root_def set_prev_free_def set_next_free_def
      link_mono_SET_NEXT link_mono_SET_PREV
      link_mono_trans[OF link_mono_SET_NEXT link_mono_SET_PREV])

lemma add_block_link_mono:
  assumes "BPALIGNED bp" "roots_aligned st"
  shows "link_mono (mem st) (mem (add_block st bp))"
proof -
  let ?r = "root st (get_list (ucast (GET_SIZE (mem st) (HDRP bp))))"
  have r: "BPALIGNED ?r" using assms(2) by (rule roots_aligned_root)
  show ?thesis
    using assms(1) r
    by (simp add: add_block_mem Let_def
        link_mono_trans[OF link_mono_SET_PREV link_mono_SET_NEXT]
        link_mono_trans[OF link_mono_trans[OF link_mono_SET_PREV link_mono_SET_NEXT] link_mono_SET_PREV])
qed

lemma add_block_links_aligned:
  assumes al: "BPALIGNED bp" and ro: "roots_aligned st"
  shows "links_aligned (mem (add_block st bp)) bp"
  using add_block_links(3,4)[OF al ro] by (simp add: links_aligned_def)

lemma frame_same_tags: "same_tags m m' \<Longrightarrow> frame m m' lo hi"
  by (simp add: frame_def same_tags_def)

lemma frame_trans: "frame a b lo hi \<Longrightarrow> frame b c lo hi \<Longrightarrow> frame a c lo hi"
  by (simp add: frame_def)

lemma frame_widen: "frame m m' lo1 hi1 \<Longrightarrow> lo \<le> lo1 \<Longrightarrow> hi1 \<le> hi \<Longrightarrow> frame m m' lo hi"
  by (auto simp: frame_def)

lemma frame_GET: "frame m m' lo hi \<Longrightarrow> BPALIGNED q \<Longrightarrow> unat q < lo \<or> hi \<le> unat q \<Longrightarrow> GET m' q = GET m q"
  by (auto simp: frame_def)

lemma set_free_region:
  assumes al: "BPALIGNED bp" and b8: "8 \<le> unat bp" and s16: "16 \<le> blk_size (mem st) bp"
    and nw: "unat bp + blk_size (mem st) bp \<le> unat (x :: 64 word)"
  shows "frame (mem st) (mem (set_free st bp)) (unat bp - 8) (unat bp + blk_size (mem st) bp - 8)"
    and "GET (mem (set_free st bp)) (HDRP bp) = GET (mem st) (HDRP bp) AND NOT 1"
    and "GET (mem (set_free st bp)) (FTRP (mem st) bp) = GET (mem st) (FTRP (mem st) bp) AND NOT 1"
proof -
  have uh: "unat (HDRP bp) = unat bp - 8" using b8 by (rule unat_HDRP)
  have uf: "unat (FTRP (mem st) bp) = unat bp + blk_size (mem st) bp - 16"
    using s16 nw by (rule unat_FTRP)
  show "frame (mem st) (mem (set_free st bp)) (unat bp - 8) (unat bp + blk_size (mem st) bp - 8)"
    unfolding frame_def
  proof (intro allI impI)
    fix q assume q: "BPALIGNED q"
      and r: "unat q < unat bp - 8 \<or> unat bp + blk_size (mem st) bp - 8 \<le> unat q"
    have "q \<noteq> HDRP bp" using r uh s16 by auto
    moreover have "q \<noteq> FTRP (mem st) bp" using r uf s16 b8 by auto
    ultimately show "GET (mem (set_free st bp)) q = GET (mem st) q"
      using set_free_tags[OF al q, of st] by simp
  qed
  show "GET (mem (set_free st bp)) (HDRP bp) = GET (mem st) (HDRP bp) AND NOT 1"
    using set_free_tags[OF al al8_HDRP[OF al], of st] by simp
  show "GET (mem (set_free st bp)) (FTRP (mem st) bp) = GET (mem st) (FTRP (mem st) bp) AND NOT 1"
    using set_free_tags[OF al al8_FTRP[OF al], of st "mem st"] by simp
qed

lemma set_size_region:
  assumes al: "BPALIGNED M" "BPALIGNED sz" and b8: "8 \<le> unat M" and s16: "16 \<le> unat sz"
    and s32: "unat sz < 2 ^ 32" and nw: "unat M + unat sz < 2 ^ 64"
  shows "frame (mem st) (mem (set_size st M sz)) (unat M - 8) (unat M + unat sz - 8)"
    and "GET (mem (set_size st M sz)) (HDRP M) = ucast sz"
    and "GET (mem (set_size st M sz)) (FTRP (mem (set_size st M sz)) M) = ucast sz"
proof -
  have uh: "unat (HDRP M) = unat M - 8" using b8 by (rule unat_HDRP)
  have "unat (M + sz) = unat M + unat sz" using nw by (simp add: unat_word_ariths)
  then have uf: "unat (M + sz - 16) = unat M + unat sz - 16"
    using s16 by (simp add: unat_sub word_le_nat_alt)
  have fal: "BPALIGNED (M + sz - 16)" using al by (simp add: al8_add al8_sub)
  show "frame (mem st) (mem (set_size st M sz)) (unat M - 8) (unat M + unat sz - 8)"
    unfolding frame_def
  proof (intro allI impI)
    fix q assume q: "BPALIGNED q"
      and r: "unat q < unat M - 8 \<or> unat M + unat sz - 8 \<le> unat q"
    have "q \<noteq> HDRP M" using r uh s16 by auto
    moreover have "q \<noteq> M + sz - 16" using r uf s16 b8 by auto
    ultimately show "GET (mem (set_size st M sz)) q = GET (mem st) q"
      using set_size_tags[OF al s32 q, of st] by simp
  qed
  show g: "GET (mem (set_size st M sz)) (HDRP M) = ucast sz"
    using set_size_tags[OF al s32 al8_HDRP[OF al(1)], of st] by simp
  then have "GET_SIZE (mem (set_size st M sz)) (HDRP M) = ucast sz"
    using al(2) by (simp add: GET_SIZE_def aligned32_size' aligned32_ucast)
  then have "FTRP (mem (set_size st M sz)) M = M + sz - 16"
    using s32 by (simp add: FTRP_def WSIZE_def ucast_ucast_small)
  then show "GET (mem (set_size st M sz)) (FTRP (mem (set_size st M sz)) M) = ucast sz"
    using set_size_tags[OF al s32 fal, of st] by simp
qed

lemma delete_free_block:
  assumes la: "links_aligned (mem st) X" and al: "BPALIGNED X" and ro: "roots_aligned st"
  shows "same_tags (mem st) (mem (delete_block st X))"
    and "link_mono (mem st) (mem (delete_block st X))"
    and "roots_aligned (delete_block st X)"
proof -
  have p: "BPALIGNED (GET_PREV_FREE (mem st) X)"
    using la al by (simp add: links_aligned_def al8_PREV_FREE)
  have n: "BPALIGNED (GET_NEXT_FREE (mem st) X)"
    using la al by (simp add: links_aligned_def al8_NEXT_FREE)
  show "same_tags (mem st) (mem (delete_block st X))" using p n by (rule delete_block_tageq)
  show "link_mono (mem st) (mem (delete_block st X))" using p n by (rule delete_block_link_mono)
  show "roots_aligned (delete_block st X)" using ro n by (rule delete_block_roots)
qed

lemma globals_kept [simp]:
  "heap_listp (set_free st bp) = heap_listp st" "eptr (set_free st bp) = eptr st"
  "heap_listp (set_size st bp n) = heap_listp st" "eptr (set_size st bp n) = eptr st"
  "heap_listp (delete_block st bp) = heap_listp st" "eptr (delete_block st bp) = eptr st"
  "heap_listp (add_block st bp) = heap_listp st" "eptr (add_block st bp) = eptr st"
  by (simp_all add: set_free_def set_size_def put_def delete_block_def add_block_def Let_def
      set_root_def set_prev_free_def set_next_free_def)

subsection \<open>Merging a run of blocks\<close>

lemma no_adj_appendD:
  "no_adjacent_free m (as @ bs) \<Longrightarrow> no_adjacent_free m as \<and> no_adjacent_free m bs"
proof (induction as)
  case Nil then show ?case by simp
next
  case (Cons a as')
  then show ?case by (cases as'; cases bs) auto
qed

lemma layout_after_merge:
  assumes c: "layout_ok st"
    and hb: "heap_blocks (mem st) (eptr st + 8) (heap_listp st) = Some (pre @ mid @ post)"
    and s1: "seg (mem st) (heap_listp st) pre M"
    and s2: "seg (mem st) M mid xe" and mid: "mid \<noteq> []"
    and s3: "seg (mem st) xe post (eptr st + 8)"
    and pre: "pre \<noteq> []"
    and nb: "\<not> is_free (mem st) (last pre)" "post \<noteq> [] \<longrightarrow> \<not> is_free (mem st) (hd post)"
    and g: "heap_listp st' = heap_listp st" "eptr st' = eptr st" "roots_aligned st'"
    and fr: "frame (mem st) (mem st') (unat M - 8) (unat xe - 8)"
    and lm: "link_mono (mem st) (mem st')"
    and sz: "GET_SIZE (mem st') (HDRP M) = ucast (xe - M)"
    and Mf: "is_free (mem st') M" "HEF (mem st') M" "links_aligned (mem st') M"
  shows "layout_ok st'
       \<and> heap_blocks (mem st') (eptr st' + 8) (heap_listp st') = Some (pre @ M # post)
       \<and> no_adjacent_free (mem st') (pre @ M # post)
       \<and> (\<forall>b \<in> set (pre @ post). GET (mem st') (HDRP b) = GET (mem st) (HDRP b))"
proof -
  define m where "m = mem st"
  define m' where "m' = mem st'"
  define h where "h = heap_listp st"
  define e where "e = eptr st + 8"
  note defs = m_def[symmetric] m'_def[symmetric] h_def[symmetric] e_def[symmetric]
  have c': "h \<noteq> 0" "BPALIGNED h" "8 \<le> unat h" "unat (eptr st) + 8 < 2 ^ 64"
    "unat (eptr st) + 8 - unat h < 2 ^ 31" "GET m (eptr st) = 1"
    "\<not> is_free m (hd (pre @ mid @ post))" "list_all (HEF m) (pre @ mid @ post)"
    "no_adjacent_free m (pre @ mid @ post)"
    "list_all (\<lambda>b. is_free m b \<longrightarrow> links_aligned m b) (pre @ mid @ post)"
    using c hb by (simp_all add: layout_ok_def defs)
  have ue: "unat e = unat (eptr st) + 8"
    using c'(4) by (simp add: e_def unat_word_ariths)
  have s1': "seg m h pre M" and s2': "seg m M mid xe" and s3': "seg m xe post e"
    using s1 s2 s3 by (simp_all add: defs)
  have Mal: "BPALIGNED M" using seg_al8[OF c'(2) s1'] by simp
  have xal: "BPALIGNED xe" using seg_al8[OF Mal s2'] by simp
  have eal: "BPALIGNED e" using seg_al8[OF xal s3'] by simp
  have hm: "hd mid \<in> set mid" using mid by simp
  have "hd mid = M" using s2' mid by (cases mid) simp_all
  then have t16: "unat M + 16 \<le> unat xe" using seg_mem[OF s2' hm] by simp
  have xe_e: "unat xe \<le> unat e" using seg_le[OF s3'] .
  have h_M: "unat h \<le> unat M" using seg_le[OF s1'] .
  have t32: "unat xe - unat M < 2 ^ 32" using xe_e h_M ue c'(5) by simp
  have hef: "list_all (HEF m) (pre @ post)" using c'(8) by simp
  have la: "list_all (\<lambda>b. is_free m b \<longrightarrow> links_aligned m b) (pre @ post)" using c'(10) by simp
  have na: "no_adjacent_free m pre" "no_adjacent_free m post"
    using no_adj_appendD[of m pre "mid @ post"] no_adj_appendD[of m mid post] c'(9) by simp_all
  note mb = merge_blocks[OF s1' s3' c'(2,3) xal fr[folded m_def m'_def] lm[folded m_def m'_def]
      sz[folded m'_def] t16 t32 Mf[folded m'_def] hef la na]
  have nb': "pre \<noteq> [] \<longrightarrow> \<not> is_free m (last pre)" "post \<noteq> [] \<longrightarrow> \<not> is_free m (hd post)"
    using nb by (simp_all add: defs)
  have hb': "heap_blocks m' e h = Some (pre @ M # post)"
    using mb(1)[OF nb'] by (simp add: heap_blocks_seg)
  have "hd pre \<in> set (pre @ post)" using pre by simp
  then have "is_free m' (hd pre) = is_free m (hd pre)" using mb(5)[OF nb'] by blast
  then have pro: "\<not> is_free m' (hd (pre @ M # post))" using c'(7) pre by simp
  have epal: "BPALIGNED (eptr st)"
    using al8_sub[OF eal al8_num(1)] by (simp add: e_def)
  have "unat xe - 8 \<le> unat (eptr st)" using xe_e ue by simp
  then have epi: "GET m' (eptr st) = 1"
    using frame_GET[OF fr epal] c'(6) by (simp add: defs)
  have "layout_ok st'"
    unfolding layout_ok_def
    using c'(1-5) g epi hb' pro mb(2,3,4)[OF nb']
    by (simp add: defs)
  then show ?thesis using hb' mb(3)[OF nb'] mb(6)[OF nb'] g by (simp add: defs)
qed

lemma ucast_down_up: "(ucast (ucast (w :: 32 word) :: 64 word) :: 32 word) = w"
  by (rule bit_word_eqI) (auto simp: bit_simps)

lemma after_add_block:
  assumes al: "BPALIGNED M" and ro: "roots_aligned s"
    and fr: "frame m (mem s) lo hi" and lm: "link_mono m (mem s)"
    and sz: "GET_SIZE (mem s) (HDRP M) = v" and fe: "is_free (mem s) M" and he: "HEF (mem s) M"
  shows "frame m (mem (add_block s M)) lo hi" "link_mono m (mem (add_block s M))"
    "GET_SIZE (mem (add_block s M)) (HDRP M) = v" "is_free (mem (add_block s M)) M"
    "HEF (mem (add_block s M)) M" "links_aligned (mem (add_block s M)) M"
    "roots_aligned (add_block s M)"
    "root (add_block s M) (get_list (ucast (GET_SIZE (mem (add_block s M)) (HDRP M)))) = M"
proof -
  have te: "same_tags (mem s) (mem (add_block s M))" using al ro by (rule add_block_tageq)
  show "root (add_block s M) (get_list (ucast (GET_SIZE (mem (add_block s M)) (HDRP M)))) = M"
    using add_block_root[OF al ro] same_tags_SIZE[OF te al8_HDRP[OF al]] by simp
  show "frame m (mem (add_block s M)) lo hi"
    using frame_trans[OF fr frame_same_tags[OF te]] .
  show "link_mono m (mem (add_block s M))"
    using link_mono_trans[OF lm add_block_link_mono[OF al ro]] .
  show "GET_SIZE (mem (add_block s M)) (HDRP M) = v"
    using same_tags_SIZE[OF te al8_HDRP[OF al]] sz by simp
  show "is_free (mem (add_block s M)) M"
    using same_tags_ALLOC[OF te al8_HDRP[OF al]] fe by (simp add: is_free_def)
  show "HEF (mem (add_block s M)) M"
    using he same_tags_GET[OF te al8_HDRP[OF al]] same_tags_FTRP[OF te al]
      same_tags_GET[OF te al8_FTRP[OF al, of "mem s"]] by (simp add: HEF_def)
  show "links_aligned (mem (add_block s M)) M" using al ro by (rule add_block_links_aligned)
  show "roots_aligned (add_block s M)" using al ro by (rule add_block_roots)
qed

lemma after_set_size:
  assumes al: "BPALIGNED M" "BPALIGNED xe" and b8: "8 \<le> unat M" and s16: "unat M + 16 \<le> unat xe"
    and s32: "unat xe - unat M < 2 ^ 32"
  shows "frame (mem s) (mem (set_size s M (xe - M))) (unat M - 8) (unat xe - 8)"
    "GET_SIZE (mem (set_size s M (xe - M))) (HDRP M) = ucast (xe - M)"
    "is_free (mem (set_size s M (xe - M))) M" "HEF (mem (set_size s M (xe - M))) M"
proof -
  have u: "unat (xe - M) = unat xe - unat M" using s16 by (simp add: unat_sub word_le_nat_alt)
  have szal: "BPALIGNED (xe - M)" using al by (simp add: al8_sub)
  have nw: "unat M + unat (xe - M) < 2 ^ 64" using u s16 unsigned_less[of xe, where 'a = nat] by simp
  note r = set_size_region[OF al(1) szal b8 _ _ nw, of s]
  have a32: "aligned32 (ucast (xe - M))" using szal by (rule aligned32_ucast)
  show "frame (mem s) (mem (set_size s M (xe - M))) (unat M - 8) (unat xe - 8)"
    using r(1) u s16 s32 by simp
  have g: "GET (mem (set_size s M (xe - M))) (HDRP M) = ucast (xe - M)"
    using r(2) u s16 s32 by simp
  show "GET_SIZE (mem (set_size s M (xe - M))) (HDRP M) = ucast (xe - M)"
    using g a32 by (simp add: GET_SIZE_def aligned32_size')
  show "is_free (mem (set_size s M (xe - M))) M"
    using g a32 by (simp add: is_free_def GET_ALLOC_def aligned32_and1)
  show "HEF (mem (set_size s M (xe - M))) M"
    using g r(3) u s16 s32 by (simp add: HEF_def)
qed

lemma no_adj_mid: "no_adjacent_free m (as @ a # b # cs) \<Longrightarrow> \<not> (is_free m a \<and> is_free m b)"
  using no_adj_appendD[of m as "a # b # cs"] by simp


subsection \<open>Link offsets\<close>

lemma scast_ucast_small:
  fixes d :: "64 word"
  assumes "- (2 ^ 31) \<le> sint d" "sint d < 2 ^ 31"
  shows "(scast (ucast d :: 32 word) :: 64 word) = d"
proof -
  have "sint (ucast d :: 32 word) = signed_take_bit 31 (uint d)"
    by (simp add: sint_uint unsigned_ucast_eq signed_take_bit_take_bit)
  also have "\<dots> = signed_take_bit 31 (sint d)"
    by (simp add: sint_uint signed_take_bit_eq_iff_take_bit_eq take_bit_signed_take_bit)
  also have "\<dots> = sint d"
    using assms by (simp add: signed_take_bit_int_eq_self)
  finally have "sint (ucast d :: 32 word) = sint d" .
  then have "sint (scast (ucast d :: 32 word) :: 64 word) = sint d"
    by (simp add: sint_up_scast is_up)
  then show ?thesis by (rule signed_word_eqI)
qed

lemma sint_diff_small:
  fixes a x :: "64 word"
  assumes "lo \<le> unat a" "unat a < hi" "lo \<le> unat x" "unat x < hi" "hi - lo < 2 ^ 31"
  shows "sint (x - a) = int (unat x) - int (unat a)"
proof -
  define k where "k = int (unat x) - int (unat a)"
  have h: "hi < lo + 2147483648" using assms(5) by simp
  have b: "- 2147483648 < k" "k < 2147483648" unfolding k_def using assms(1-4) h by linarith+
  have "x - a = word_of_int k" by (simp add: k_def)
  then have "sint (x - a) = signed_take_bit 63 k" by (simp add: sint_sbintrunc')
  also have "\<dots> = k" using b by (simp add: signed_take_bit_int_eq_self)
  finally show ?thesis by (simp add: k_def)
qed

lemma offset_roundtrip:
  fixes a x :: "64 word"
  assumes "lo \<le> unat a" "unat a < hi" "lo \<le> unat x" "unat x < hi" "hi - lo < 2 ^ 31"
  shows "a + scast (ucast (x - a) :: 32 word) = x"
    and "x \<noteq> a \<Longrightarrow> (ucast (x - a) :: 32 word) \<noteq> 0"
proof -
  have s: "sint (x - a) = int (unat x) - int (unat a)" using assms by (rule sint_diff_small)
  have h: "hi < lo + 2147483648" using assms(5) by simp
  have "- 2147483648 \<le> int (unat x) - int (unat a)" "int (unat x) - int (unat a) < 2147483648"
    using assms(1-4) h by linarith+
  then have "- (2 ^ 31) \<le> sint (x - a)" "sint (x - a) < 2 ^ 31" unfolding s by simp_all
  then have r: "(scast (ucast (x - a) :: 32 word) :: 64 word) = x - a"
    by (rule scast_ucast_small)
  show "a + scast (ucast (x - a) :: 32 word) = x" using r by simp
  show "x \<noteq> a \<Longrightarrow> (ucast (x - a) :: 32 word) \<noteq> 0"
  proof
    assume "x \<noteq> a" and z: "(ucast (x - a) :: 32 word) = 0"
    then have "x - a = 0" using r by simp
    then show False using \<open>x \<noteq> a\<close> by simp
  qed
qed

subsection \<open>Links of disjoint blocks\<close>

lemma nodes_slots:
  assumes n: "nodes m lo hi G" and b: "b \<in> G" and c: "c \<in> G"
  shows "FTRP m b = FTRP m c \<Longrightarrow> b = c" and "HDRP b \<noteq> FTRP m c"
    and "unat (HDRP b) = unat b - 8" and "unat (FTRP m b) = unat b + blk_size m b - 16"
proof -
  have hi: "hi \<le> unat (word_of_nat hi :: 64 word)"
    using n by (simp add: nodes_def unsigned_of_nat take_bit_nat_eq_self)
  have B: "BPALIGNED b" "lo \<le> unat b" "16 \<le> blk_size m b" "unat b + blk_size m b \<le> hi" "8 \<le> lo"
    using n b by (simp_all add: nodes_def)
  have C: "BPALIGNED c" "lo \<le> unat c" "16 \<le> blk_size m c" "unat c + blk_size m c \<le> hi"
    using n c by (simp_all add: nodes_def)
  have fb: "unat (FTRP m b) = unat b + blk_size m b - 16"
    using unat_FTRP[OF B(3), of "word_of_nat hi"] B(4) hi by simp
  have fc: "unat (FTRP m c) = unat c + blk_size m c - 16"
    using unat_FTRP[OF C(3), of "word_of_nat hi"] C(4) hi by simp
  have hb: "unat (HDRP b) = unat b - 8" using B by (simp add: unat_HDRP)
  show "unat (HDRP b) = unat b - 8" by (rule hb)
  show "unat (FTRP m b) = unat b + blk_size m b - 16" by (rule fb)
  have dj: "b \<noteq> c \<Longrightarrow> unat b + blk_size m b \<le> unat c \<or> unat c + blk_size m c \<le> unat b"
    using n b c by (simp add: nodes_def)
  show "FTRP m b = FTRP m c \<Longrightarrow> b = c"
  proof (rule ccontr)
    assume e: "FTRP m b = FTRP m c" and ne: "b \<noteq> c"
    have "unat b + blk_size m b - 16 = unat c + blk_size m c - 16" using e fb fc by simp
    then show False using dj[OF ne] B C by arith
  qed
  show "HDRP b \<noteq> FTRP m c"
  proof
    assume e: "HDRP b = FTRP m c"
    then have q: "unat b - 8 = unat c + blk_size m c - 16" using hb fc by simp
    show False
    proof (cases "b = c")
      case True then show ?thesis using q B by arith
    next
      case False then show ?thesis using dj[OF False] q B C by arith
    qed
  qed
qed

lemma nodes_range:
  assumes n: "nodes m lo hi G" and b: "b \<in> G"
  shows "lo \<le> unat b" "unat b < hi" "BPALIGNED b" "b \<noteq> 0"
  using n b by (auto simp: nodes_def)

lemma nodes_same_size:
  assumes n: "nodes m lo hi G" and s: "\<forall>b \<in> G. GET_SIZE m' (HDRP b) = GET_SIZE m (HDRP b)"
  shows "nodes m' lo hi G"
proof -
  have "\<forall>b \<in> G. blk_size m' b = blk_size m b" using s by (simp add: blk_size_def)
  then show ?thesis using n by (simp add: nodes_def)
qed

lemma nodes_subset: "nodes m lo hi G \<Longrightarrow> H \<subseteq> G \<Longrightarrow> nodes m lo hi H"
  by (auto simp: nodes_def)

lemma same_links_refl [simp]: "same_links m m" by (simp add: same_links_def)

lemma same_links_trans: "same_links a b \<Longrightarrow> same_links b c \<Longrightarrow> same_links a c"
  by (simp add: same_links_def)

lemma same_links_PUT_tag: "BPALIGNED p \<Longrightarrow> same_links m (PUT m p v)"
  by (simp add: same_links_def GET_link_PUT_tag)

lemma set_free_same_links: "BPALIGNED bp \<Longrightarrow> same_links (mem st) (mem (set_free st bp))"
  by (simp add: set_free_def Let_def)
     (rule same_links_trans[OF same_links_PUT_tag same_links_PUT_tag], simp_all add: al8_HDRP al8_FTRP)

lemma set_size_same_links: "BPALIGNED bp \<Longrightarrow> same_links (mem st) (mem (set_size st bp n))"
  by (simp add: set_size_def put_def Let_def)
     (rule same_links_trans[OF same_links_PUT_tag same_links_PUT_tag], simp_all add: al8_HDRP al8_FTRP)

text \<open>The links of a block depend on its size tag and on its two link words.\<close>

lemma links_cong:
  assumes al: "BPALIGNED b" and sz: "GET_SIZE m' (HDRP b) = GET_SIZE m (HDRP b)"
    and n: "GET m' (HDRP b + 4) = GET m (HDRP b + 4)"
    and p: "GET m' (FTRP m b + 4) = GET m (FTRP m b + 4)"
  shows "GET_NEXT_FREE m' b = GET_NEXT_FREE m b" "GET_PREV_FREE m' b = GET_PREV_FREE m b"
proof -
  have f: "FTRP m' b = FTRP m b" using sz by (simp add: FTRP_def)
  show "GET_NEXT_FREE m' b = GET_NEXT_FREE m b" using n by (simp add: GET_NEXT_FREE_def NEXT_PTR_link)
  show "GET_PREV_FREE m' b = GET_PREV_FREE m b" using p f by (simp add: GET_PREV_FREE_def PREV_PTR_link)
qed

lemma links_tag_only:
  assumes sl: "same_links m m'" and al: "BPALIGNED b"
    and sz: "GET_SIZE m' (HDRP b) = GET_SIZE m (HDRP b)"
  shows "GET_NEXT_FREE m' b = GET_NEXT_FREE m b" "GET_PREV_FREE m' b = GET_PREV_FREE m b"
  using links_cong[OF al sz] sl al by (simp_all add: same_links_def al8_HDRP al8_FTRP)

text \<open>Reading the links after one link store, for blocks of a node set.\<close>

lemma next_after_SET_NEXT:
  assumes n: "nodes m lo hi G" and a: "a \<in> G" and x: "x \<in> G" and b: "b \<in> G"
  shows "GET_NEXT_FREE (SET_NEXT_FREE m a x) b
         = (if b = a then (if x = a then 0 else x) else GET_NEXT_FREE m b)"
    and "GET_PREV_FREE (SET_NEXT_FREE m a x) b = GET_PREV_FREE m b"
proof -
  note A = nodes_range[OF n a] and X = nodes_range[OF n x] and B = nodes_range[OF n b]
  have hi: "hi - lo < 2 ^ 31" using n by (simp add: nodes_def)
  define m' where "m' = SET_NEXT_FREE m a x"
  have te: "same_tags m m'" unfolding m'_def using A(3) by (rule same_tags_SET_NEXT)
  have sz: "GET_SIZE m' (HDRP b) = GET_SIZE m (HDRP b)"
    using same_tags_SIZE[OF te al8_HDRP[OF B(3)]] .
  have g: "\<And>q. BPALIGNED q \<Longrightarrow> GET m' (q + 4) = (if q = HDRP a then ucast (x - a) else GET m (q + 4))"
    unfolding m'_def using A(3) by (rule GET_SET_NEXT)
  have ne: "FTRP m b \<noteq> HDRP a" using nodes_slots(2)[OF n a b] by simp
  have "GET m' (FTRP m b + 4) = GET m (FTRP m b + 4)"
    using g[OF al8_FTRP[OF B(3), of m]] ne by simp
  then show "GET_PREV_FREE (SET_NEXT_FREE m a x) b = GET_PREV_FREE m b"
    using sz by (simp add: GET_PREV_FREE_def PREV_PTR_link FTRP_def m'_def)
  show "GET_NEXT_FREE (SET_NEXT_FREE m a x) b
         = (if b = a then (if x = a then 0 else x) else GET_NEXT_FREE m b)"
  proof (cases "b = a")
    case True
    have w: "GET m' (HDRP a + 4) = ucast (x - a)" using g[OF al8_HDRP[OF A(3)]] by simp
    show ?thesis
      using True w offset_roundtrip[OF A(1,2) X(1,2) hi]
      by (auto simp: GET_NEXT_FREE_def NEXT_PTR_link m'_def[symmetric])
  next
    case False
    then have "HDRP b \<noteq> HDRP a" by (simp add: HDRP_def)
    then have "GET m' (HDRP b + 4) = GET m (HDRP b + 4)" using g[OF al8_HDRP[OF B(3)]] by simp
    then show ?thesis using False by (simp add: GET_NEXT_FREE_def NEXT_PTR_link m'_def)
  qed
qed

lemma prev_after_SET_PREV:
  assumes n: "nodes m lo hi G" and a: "a \<in> G" and x: "x \<in> G" and b: "b \<in> G"
  shows "GET_PREV_FREE (SET_PREV_FREE m a x) b
         = (if b = a then (if x = a then 0 else x) else GET_PREV_FREE m b)"
    and "GET_NEXT_FREE (SET_PREV_FREE m a x) b = GET_NEXT_FREE m b"
proof -
  note A = nodes_range[OF n a] and X = nodes_range[OF n x] and B = nodes_range[OF n b]
  have hi: "hi - lo < 2 ^ 31" using n by (simp add: nodes_def)
  define m' where "m' = SET_PREV_FREE m a x"
  have te: "same_tags m m'" unfolding m'_def using A(3) by (rule same_tags_SET_PREV)
  have sz: "GET_SIZE m' (HDRP b) = GET_SIZE m (HDRP b)"
    using same_tags_SIZE[OF te al8_HDRP[OF B(3)]] .
  have f: "FTRP m' b = FTRP m b" using sz by (simp add: FTRP_def)
  have g: "\<And>q. BPALIGNED q \<Longrightarrow> GET m' (q + 4) = (if q = FTRP m a then ucast (x - a) else GET m (q + 4))"
    unfolding m'_def using A(3) by (rule GET_SET_PREV)
  have ne: "HDRP b \<noteq> FTRP m a" using nodes_slots(2)[OF n b a] .
  have "GET m' (HDRP b + 4) = GET m (HDRP b + 4)"
    using g[OF al8_HDRP[OF B(3)]] ne by simp
  then show "GET_NEXT_FREE (SET_PREV_FREE m a x) b = GET_NEXT_FREE m b"
    by (simp add: GET_NEXT_FREE_def NEXT_PTR_link m'_def)
  show "GET_PREV_FREE (SET_PREV_FREE m a x) b
         = (if b = a then (if x = a then 0 else x) else GET_PREV_FREE m b)"
  proof (cases "b = a")
    case True
    have w: "GET m' (FTRP m a + 4) = ucast (x - a)" using g[OF al8_FTRP[OF A(3), of m]] by simp
    show ?thesis
      using True w f offset_roundtrip[OF A(1,2) X(1,2) hi]
      by (auto simp: GET_PREV_FREE_def PREV_PTR_link m'_def[symmetric])
  next
    case False
    then have "FTRP m b \<noteq> FTRP m a" using nodes_slots(1)[OF n b a] by blast
    then have "GET m' (FTRP m b + 4) = GET m (FTRP m b + 4)"
      using g[OF al8_FTRP[OF B(3), of m]] by simp
    then show ?thesis using False f by (simp add: GET_PREV_FREE_def PREV_PTR_link m'_def[symmetric])
  qed
qed

lemma nodes_SET:
  assumes n: "nodes m lo hi G" and a: "a \<in> G"
  shows "nodes (SET_NEXT_FREE m a x) lo hi G" "nodes (SET_PREV_FREE m a x) lo hi G"
proof -
  have al: "BPALIGNED a" using nodes_range[OF n a] by simp
  have "\<forall>b \<in> G. GET_SIZE (SET_NEXT_FREE m a x) (HDRP b) = GET_SIZE m (HDRP b)"
    using same_tags_SIZE[OF same_tags_SET_NEXT[OF al]] nodes_range(3)[OF n] by (simp add: al8_HDRP)
  then show "nodes (SET_NEXT_FREE m a x) lo hi G" using n by (rule nodes_same_size[rotated])
  have "\<forall>b \<in> G. GET_SIZE (SET_PREV_FREE m a x) (HDRP b) = GET_SIZE m (HDRP b)"
    using same_tags_SIZE[OF same_tags_SET_PREV[OF al]] nodes_range(3)[OF n] by (simp add: al8_HDRP)
  then show "nodes (SET_PREV_FREE m a x) lo hi G" using n by (rule nodes_same_size[rotated])
qed

subsection \<open>Doubly linked chains\<close>

lemma dls_cong:
  "\<forall>b \<in> set cs. GET_NEXT_FREE m' b = GET_NEXT_FREE m b \<and> GET_PREV_FREE m' b = GET_PREV_FREE m b
   \<Longrightarrow> dls m' pr p cs q = dls m pr p cs q"
  by (induction cs arbitrary: pr p) auto

lemma dls_append:
  "dls m pr p (xs @ ys) q \<longleftrightarrow> (\<exists>y. dls m pr p xs y \<and> dls m (last (pr # xs)) y ys q)"
  by (induction xs arbitrary: pr p) auto

lemma dls_nonzero: "dls m pr p cs q \<Longrightarrow> 0 \<notin> set cs"
  by (induction cs arbitrary: pr p) (auto simp: LIST_END_def)

lemma dls_start: "dls m pr p cs 0 \<Longrightarrow> p = (if cs = [] then 0 else hd cs)"
  by (cases cs) auto

lemma chain_of_dls:
  "dls m pr p cs 0 \<Longrightarrow> length cs \<le> length fuel \<Longrightarrow> chain_of m fuel p = cs"
proof (induction cs arbitrary: pr p fuel)
  case Nil
  then show ?case by (cases fuel) (simp_all add: LIST_END_def)
next
  case (Cons c cs)
  then obtain f fuel' where f: "fuel = f # fuel'" by (cases fuel) auto
  have "dls m c (GET_NEXT_FREE m c) cs 0" "length cs \<le> length fuel'"
    using Cons.prems f by simp_all
  then have "chain_of m fuel' (GET_NEXT_FREE m c) = cs" by (rule Cons.IH)
  then show ?case using Cons.prems f by (simp add: LIST_END_def)
qed

text \<open>Unlinking one node of a chain, given what the stores do to the links.\<close>

lemma dls_unlink:
  assumes d: "dls m 0 r (xs @ N # ys) 0" and dist: "distinct (xs @ N # ys)"
    and nx: "\<forall>b \<in> set (xs @ ys). GET_NEXT_FREE m' b
               = (if xs \<noteq> [] \<and> b = last xs then (if ys = [] then 0 else hd ys) else GET_NEXT_FREE m b)"
    and pv: "\<forall>b \<in> set (xs @ ys). GET_PREV_FREE m' b
               = (if ys \<noteq> [] \<and> b = hd ys then last (0 # xs) else GET_PREV_FREE m b)"
  shows "dls m' 0 (if xs = [] then (if ys = [] then 0 else hd ys) else r) (xs @ ys) 0"
proof -
  define y0 where "y0 = (if ys = [] then 0 else hd ys)"
  define x0 where "x0 = last (0 # xs)"
  obtain y where y: "dls m 0 r xs y" "dls m x0 y (N # ys) 0"
    using d dls_append[of m 0 r xs "N # ys" 0] by (auto simp: x0_def)
  then have N: "y = N" "GET_PREV_FREE m N = x0" "dls m N (GET_NEXT_FREE m N) ys 0" by simp_all
  have ny: "GET_NEXT_FREE m N = y0" using dls_start[OF N(3)] by (simp add: y0_def)
  have A: "dls m' 0 (if xs = [] then y0 else r) xs y0"
  proof (cases "xs = []")
    case True then show ?thesis by simp
  next
    case False
    define xs' where "xs' = butlast xs"
    have xs: "xs = xs' @ [x0]" using False by (simp add: xs'_def x0_def)
    obtain z where z: "dls m 0 r xs' z" "dls m (last (0 # xs')) z [x0] N"
      using y(1) N(1) dls_append[of m 0 r xs' "[x0]" N] xs by auto
    have zx: "z = x0" "x0 \<noteq> LIST_END" "GET_PREV_FREE m x0 = last (0 # xs')" using z(2) by simp_all
    have "\<forall>b \<in> set xs'. GET_NEXT_FREE m' b = GET_NEXT_FREE m b \<and> GET_PREV_FREE m' b = GET_PREV_FREE m b"
    proof
      fix b assume b: "b \<in> set xs'"
      have "b \<noteq> x0" using dist xs b by auto
      moreover have "ys \<noteq> [] \<Longrightarrow> b \<noteq> hd ys" using dist xs b by (cases ys) auto
      moreover have "b \<in> set (xs @ ys)" using b xs by simp
      ultimately show "GET_NEXT_FREE m' b = GET_NEXT_FREE m b \<and> GET_PREV_FREE m' b = GET_PREV_FREE m b"
        using nx pv xs by auto
    qed
    then have a1: "dls m' 0 r xs' x0" using dls_cong[of xs' m' m 0 r x0] z(1) zx(1) by simp
    have x0in: "x0 \<in> set (xs @ ys)" using xs by simp
    have "ys \<noteq> [] \<Longrightarrow> x0 \<noteq> hd ys" using dist xs by (cases ys) auto
    then have "GET_PREV_FREE m' x0 = last (0 # xs')" using pv x0in zx(3) by auto
    moreover have "GET_NEXT_FREE m' x0 = y0" using nx x0in xs by (auto simp: y0_def)
    ultimately have "dls m' (last (0 # xs')) x0 [x0] y0" using zx(2) by simp
    then have "dls m' 0 r (xs' @ [x0]) y0" using a1 dls_append[of m' 0 r xs' "[x0]" y0] by blast
    then show ?thesis using False xs by simp
  qed
  have B: "dls m' x0 y0 ys 0"
  proof (cases ys)
    case Nil then show ?thesis by (simp add: y0_def)
  next
    case (Cons c ys')
    have c: "c = y0" using Cons by (simp add: y0_def)
    have d3: "c \<noteq> LIST_END" "dls m c (GET_NEXT_FREE m c) ys' 0"
      using N(3) Cons by simp_all
    have "\<forall>b \<in> set ys'. GET_NEXT_FREE m' b = GET_NEXT_FREE m b \<and> GET_PREV_FREE m' b = GET_PREV_FREE m b"
    proof
      fix b assume b: "b \<in> set ys'"
      have "b \<noteq> c" using dist Cons b by auto
      moreover have "b \<notin> set xs" using dist Cons b by auto
      then have "xs \<noteq> [] \<Longrightarrow> b \<noteq> last xs" using last_in_set[of xs] by metis
      moreover have "b \<in> set (xs @ ys)" using b Cons by simp
      ultimately show "GET_NEXT_FREE m' b = GET_NEXT_FREE m b \<and> GET_PREV_FREE m' b = GET_PREV_FREE m b"
        using nx pv Cons by auto
    qed
    then have b1: "dls m' c (GET_NEXT_FREE m c) ys' 0"
      using dls_cong[of ys' m' m c "GET_NEXT_FREE m c" 0] d3(2) by simp
    have cin: "c \<in> set (xs @ ys)" using Cons by simp
    have "c \<notin> set xs" using dist Cons by auto
    then have "xs \<noteq> [] \<Longrightarrow> c \<noteq> last xs" using last_in_set[of xs] by metis
    then have "GET_NEXT_FREE m' c = GET_NEXT_FREE m c" using nx cin by auto
    moreover have "GET_PREV_FREE m' c = x0" using pv cin Cons by (auto simp: x0_def)
    ultimately show ?thesis using b1 d3(1) Cons c by simp
  qed
  have "last (0 # xs) = x0" by (simp add: x0_def)
  then have "dls m' 0 (if xs = [] then y0 else r) (xs @ ys) 0"
    using A B dls_append[of m' 0 "if xs = [] then y0 else r" xs ys 0] by auto
  then show ?thesis unfolding y0_def .
qed

lemma dls_push:
  assumes d: "dls m 0 r cs 0" and M0: "M \<noteq> 0" and fresh: "M \<notin> set cs"
    and nx: "GET_NEXT_FREE m' M = r" and pvM: "GET_PREV_FREE m' M = 0"
    and nxs: "\<forall>b \<in> set cs. GET_NEXT_FREE m' b = GET_NEXT_FREE m b"
    and pvs: "\<forall>b \<in> set cs. GET_PREV_FREE m' b = (if b = r then M else GET_PREV_FREE m b)"
    and dist: "distinct cs"
  shows "dls m' 0 M (M # cs) 0"
proof (cases cs)
  case Nil
  then have "r = 0" using d by simp
  then show ?thesis using Nil M0 nx pvM by (simp add: LIST_END_def)
next
  case (Cons c cs')
  have c: "c = r" "c \<noteq> LIST_END" "dls m c (GET_NEXT_FREE m c) cs' 0" using d Cons by simp_all
  have "\<forall>b \<in> set cs'. GET_NEXT_FREE m' b = GET_NEXT_FREE m b \<and> GET_PREV_FREE m' b = GET_PREV_FREE m b"
    using nxs pvs Cons dist c(1) by auto
  then have "dls m' c (GET_NEXT_FREE m c) cs' 0"
    using dls_cong[of cs' m' m c "GET_NEXT_FREE m c" 0] c(3) by simp
  moreover have "GET_NEXT_FREE m' c = GET_NEXT_FREE m c" using nxs Cons by simp
  moreover have "GET_PREV_FREE m' c = M" using pvs Cons c(1) by simp
  ultimately have "dls m' M c (c # cs') 0" using c(2) by simp
  then show ?thesis using Cons M0 nx pvM c(1) by (simp add: LIST_END_def)
qed

subsection \<open>The free-list engine on the buckets\<close>

lemma cls_range: "0 \<le> cls m b" "cls m b < 20"
  using get_list_range[of "ucast (GET_SIZE m (HDRP b))"] by (simp_all add: cls_def)

lemma root_set_root_nth:
  assumes "length (free_lists st) = 20" "0 \<le> i" "i < 20" "0 \<le> j" "j < 20"
  shows "root (set_root st i p) j = (if j = i then p else root st j)"
  using assms by (auto simp: root_def set_root_def nat_eq_iff)

lemma dls_mid:
  assumes "dls m 0 r (xs @ N # ys) 0"
  shows "GET_PREV_FREE m N = last (0 # xs)"
    and "GET_NEXT_FREE m N = (if ys = [] then 0 else hd ys)" and "N \<noteq> 0"
proof -
  obtain y where y: "dls m 0 r xs y" "dls m (last (0 # xs)) y (N # ys) 0"
    using assms dls_append[of m 0 r xs "N # ys" 0] by auto
  then have N: "GET_PREV_FREE m N = last (0 # xs)" "dls m N (GET_NEXT_FREE m N) ys 0" "N \<noteq> 0"
    by (simp_all add: LIST_END_def)
  show "GET_PREV_FREE m N = last (0 # xs)" "N \<noteq> 0" using N by simp_all
  show "GET_NEXT_FREE m N = (if ys = [] then 0 else hd ys)" using dls_start[OF N(2)] .
qed

lemma buckets_cong:
  assumes bk: "buckets st LS" and fl: "free_lists st' = free_lists st"
    and same: "\<forall>i. 0 \<le> i \<and> i < 20 \<longrightarrow> (\<forall>b \<in> set (LS i).
        GET_NEXT_FREE (mem st') b = GET_NEXT_FREE (mem st) b
        \<and> GET_PREV_FREE (mem st') b = GET_PREV_FREE (mem st) b
        \<and> cls (mem st') b = cls (mem st) b)"
  shows "buckets st' LS"
proof -
  have r: "\<And>i. root st' i = root st i" using fl by (simp add: root_def)
  show ?thesis
    unfolding buckets_def
  proof (intro conjI allI impI)
    show "length (free_lists st') = 20" using bk fl by (simp add: buckets_def)
  next
    fix i :: int assume i: "0 \<le> i \<and> i < 20"
    have b: "dls (mem st) 0 (root st i) (LS i) 0" "distinct (LS i)"
      "\<forall>b \<in> set (LS i). cls (mem st) b = i" using bk i by (simp_all add: buckets_def)
    have "dls (mem st') 0 (root st i) (LS i) 0 = dls (mem st) 0 (root st i) (LS i) 0"
      by (rule dls_cong) (use same i in auto)
    then show "dls (mem st') 0 (root st' i) (LS i) 0" using b(1) r by simp
    show "distinct (LS i)" using b(2) .
    show "\<forall>b \<in> set (LS i). cls (mem st') b = i" using b(3) same i by auto
  qed
qed

lemma delete_block_buckets:
  assumes n: "nodes (mem st) lo hi G" and bk: "buckets st LS"
    and sub: "\<forall>i. 0 \<le> i \<and> i < 20 \<longrightarrow> set (LS i) \<subseteq> G"
    and N: "N \<in> set (LS (cls (mem st) N))"
  shows "buckets (delete_block st N) (\<lambda>i. filter (\<lambda>b. b \<noteq> N) (LS i))"
    and "same_tags (mem st) (mem (delete_block st N))"
proof -
  define m where "m = mem st"
  define i where "i = cls m N"
  define st' where "st' = delete_block st N"
  define m' where "m' = mem st'"
  have ir: "0 \<le> i" "i < 20" using cls_range[of m N] by (simp_all add: i_def)
  have len: "length (free_lists st) = 20" using bk by (simp add: buckets_def)
  have bi: "dls m 0 (root st i) (LS i) 0" "distinct (LS i)" "\<forall>b \<in> set (LS i). cls m b = i"
    using bk ir by (simp_all add: buckets_def m_def)
  obtain xs ys where cs: "LS i = xs @ N # ys"
    using N split_list[of N "LS i"] by (auto simp: i_def m_def)
  define x0 where "x0 = last (0 # xs)"
  define y0 where "y0 = (if ys = [] then 0 else hd ys)"
  have d: "dls m 0 (root st i) (xs @ N # ys) 0" using bi(1) cs by simp
  have dist: "distinct (xs @ N # ys)" using bi(2) cs by simp
  have pN: "GET_PREV_FREE m N = x0" and nN: "GET_NEXT_FREE m N = y0"
    using dls_mid[OF d] by (simp_all add: x0_def y0_def)
  have nz: "0 \<notin> set (xs @ N # ys)" using dls_nonzero[OF d] .
  have "set (LS i) \<subseteq> G" using sub ir by blast
  then have subi: "set (xs @ N # ys) \<subseteq> G" using cs by simp
  have x0p: "xs \<noteq> [] \<Longrightarrow> x0 \<in> set xs" by (simp add: x0_def)
  have y0p: "ys \<noteq> [] \<Longrightarrow> y0 \<in> set ys" by (simp add: y0_def)
  have "xs = [] \<Longrightarrow> x0 = 0" by (simp add: x0_def)
  moreover have "xs \<noteq> [] \<Longrightarrow> x0 \<noteq> 0" using x0p nz by fastforce
  ultimately have x0z: "x0 = 0 \<longleftrightarrow> xs = []" by blast
  have "ys = [] \<Longrightarrow> y0 = 0" by (simp add: y0_def)
  moreover have "ys \<noteq> [] \<Longrightarrow> y0 \<noteq> 0" using y0p nz by fastforce
  ultimately have y0z: "y0 = 0 \<longleftrightarrow> ys = []" by blast
  have x0G: "xs \<noteq> [] \<Longrightarrow> x0 \<in> G" using x0p subi by auto
  have y0G: "ys \<noteq> [] \<Longrightarrow> y0 \<in> G" using y0p subi by auto
  have xy: "xs \<noteq> [] \<Longrightarrow> ys \<noteq> [] \<Longrightarrow> x0 \<noteq> y0" using x0p y0p dist by auto
  have read: "get_list (ucast (GET_SIZE (mem st) (HDRP N))) = i"
    "get_list (ucast (GET_SIZE m (HDRP N))) = i" by (simp_all add: i_def cls_def m_def)
  have mem': "m' = (if xs = [] then (if ys = [] then m else SET_PREV_FREE m y0 y0)
                    else if ys = [] then SET_NEXT_FREE m x0 x0
                    else SET_PREV_FREE (SET_NEXT_FREE m x0 y0) y0 x0)"
    using pN nN x0z y0z
    by (simp add: m'_def st'_def delete_block_def Let_def read m_def[symmetric] LIST_END_def
        set_root_def set_prev_free_def set_next_free_def)
  have fl': "free_lists st' = (if xs = [] then (free_lists st)[nat i := y0] else free_lists st)"
    using pN nN x0z y0z
    by (auto simp: st'_def delete_block_def Let_def read m_def[symmetric] LIST_END_def NULL_def
        set_root_def set_prev_free_def set_next_free_def)
  have eff: "\<And>b. b \<in> G \<Longrightarrow>
      GET_NEXT_FREE m' b = (if xs \<noteq> [] \<and> b = x0 then y0 else GET_NEXT_FREE m b)
      \<and> GET_PREV_FREE m' b = (if ys \<noteq> [] \<and> b = y0 then x0 else GET_PREV_FREE m b)"
  proof -
    fix b assume b: "b \<in> G"
    note n' = n[folded m_def]
    show "GET_NEXT_FREE m' b = (if xs \<noteq> [] \<and> b = x0 then y0 else GET_NEXT_FREE m b)
      \<and> GET_PREV_FREE m' b = (if ys \<noteq> [] \<and> b = y0 then x0 else GET_PREV_FREE m b)"
    proof (cases "xs = []")
      case xe: True
      show ?thesis
      proof (cases "ys = []")
        case True then show ?thesis using xe mem' by simp
      next
        case False
        have "m' = SET_PREV_FREE m y0 y0" using xe False mem' by simp
        then show ?thesis
          using prev_after_SET_PREV[OF n' y0G[OF False] y0G[OF False] b] xe False x0z by simp
      qed
    next
      case xn: False
      show ?thesis
      proof (cases "ys = []")
        case True
        have "m' = SET_NEXT_FREE m x0 x0" using xn True mem' by simp
        then show ?thesis
          using next_after_SET_NEXT[OF n' x0G[OF xn] x0G[OF xn] b] xn True y0z by simp
      next
        case False
        define m1 where "m1 = SET_NEXT_FREE m x0 y0"
        have n1: "nodes m1 lo hi G" unfolding m1_def using n' x0G[OF xn] by (rule nodes_SET(1))
        have e: "m' = SET_PREV_FREE m1 y0 x0" using xn False mem' by (simp add: m1_def)
        have a1: "GET_NEXT_FREE m1 b = (if b = x0 then y0 else GET_NEXT_FREE m b)"
          "GET_PREV_FREE m1 b = GET_PREV_FREE m b"
          using next_after_SET_NEXT[OF n' x0G[OF xn] y0G[OF False] b] xy[OF xn False]
          by (simp_all add: m1_def)
        have a2: "GET_PREV_FREE m' b = (if b = y0 then x0 else GET_PREV_FREE m1 b)"
          "GET_NEXT_FREE m' b = GET_NEXT_FREE m1 b"
          using prev_after_SET_PREV[OF n1 y0G[OF False] x0G[OF xn] b] xy[OF xn False]
          by (auto simp: e)
        show ?thesis using a1 a2 xn False by simp
      qed
    qed
  qed
  have te: "same_tags m m'"
  proof -
    have "xs \<noteq> [] \<Longrightarrow> BPALIGNED x0" using nodes_range(3)[OF n x0G] by simp
    moreover have "ys \<noteq> [] \<Longrightarrow> BPALIGNED y0" using nodes_range(3)[OF n y0G] by simp
    ultimately show ?thesis
      by (auto simp: mem' same_tags_SET_NEXT same_tags_SET_PREV same_tags_NP)
  qed
  show "same_tags (mem st) (mem (delete_block st N))" using te by (simp add: m_def m'_def st'_def)
  have clsG: "\<And>b. b \<in> G \<Longrightarrow> cls m' b = cls m b"
    using same_tags_SIZE[OF te al8_HDRP[OF nodes_range(3)[OF n]]] by (simp add: cls_def)
  have "buckets st' (\<lambda>i. filter (\<lambda>b. b \<noteq> N) (LS i))"
    unfolding buckets_def
  proof (intro conjI allI impI)
    show "length (free_lists st') = 20" using len fl' by simp
  next
    fix j :: int assume j: "0 \<le> j \<and> j < 20"
    have bj: "dls m 0 (root st j) (LS j) 0" "distinct (LS j)" "\<forall>b \<in> set (LS j). cls m b = j"
      using bk j by (simp_all add: buckets_def m_def)
    have subj: "set (LS j) \<subseteq> G" using sub j by simp
    show "distinct (filter (\<lambda>b. b \<noteq> N) (LS j))" using bj(2) by simp
    show "\<forall>b \<in> set (filter (\<lambda>b. b \<noteq> N) (LS j)). cls (mem st') b = j"
      using bj(3) clsG subj by (auto simp: m'_def)
    show "dls (mem st') 0 (root st' j) (filter (\<lambda>b. b \<noteq> N) (LS j)) 0"
    proof (cases "j = i")
      case True
      have "filter (\<lambda>b. b \<noteq> N) xs = xs" "filter (\<lambda>b. b \<noteq> N) ys = ys"
        using dist by (auto simp: filter_id_conv)
      then have f: "filter (\<lambda>b. b \<noteq> N) (LS j) = xs @ ys" using True cs by simp
      have rt: "root st' i = (if xs = [] then y0 else root st i)"
        using fl' len ir by (simp add: root_def)
      have "dls m' 0 (if xs = [] then (if ys = [] then 0 else hd ys) else root st i) (xs @ ys) 0"
      proof (rule dls_unlink[OF d dist])
        show "\<forall>b \<in> set (xs @ ys). GET_NEXT_FREE m' b
               = (if xs \<noteq> [] \<and> b = last xs then (if ys = [] then 0 else hd ys) else GET_NEXT_FREE m b)"
          using eff subi by (auto simp: x0_def y0_def)
        show "\<forall>b \<in> set (xs @ ys). GET_PREV_FREE m' b
               = (if ys \<noteq> [] \<and> b = hd ys then last (0 # xs) else GET_PREV_FREE m b)"
          using eff subi by (auto simp: x0_def y0_def)
      qed
      then have "dls m' 0 (root st' i) (xs @ ys) 0" unfolding rt y0_def .
      then show ?thesis using True f by (simp add: m'_def)
    next
      case False
      have Nn: "N \<notin> set (LS j)"
      proof
        assume "N \<in> set (LS j)"
        then have "cls m N = j" using bj(3) by simp
        then show False using False by (simp add: i_def)
      qed
      then have f: "filter (\<lambda>b. b \<noteq> N) (LS j) = LS j" by (simp add: filter_id_conv) auto
      have rt: "root st' j = root st j"
        using fl' len ir j False by (auto simp: root_def nat_eq_iff)
      have same: "\<forall>b \<in> set (LS j). GET_NEXT_FREE m' b = GET_NEXT_FREE m b
                    \<and> GET_PREV_FREE m' b = GET_PREV_FREE m b"
      proof
        fix b assume b: "b \<in> set (LS j)"
        then have cj: "cls m b = j" using bj(3) by simp
        have "xs \<noteq> [] \<Longrightarrow> b \<noteq> x0"
        proof
          assume "xs \<noteq> []" "b = x0"
          then have "b \<in> set (LS i)" using x0p cs by simp
          then show False using bi(3) cj False by simp
        qed
        moreover have "ys \<noteq> [] \<Longrightarrow> b \<noteq> y0"
        proof
          assume "ys \<noteq> []" "b = y0"
          then have "b \<in> set (LS i)" using y0p cs by simp
          then show False using bi(3) cj False by simp
        qed
        moreover have "b \<in> G" using b subj by blast
        ultimately show "GET_NEXT_FREE m' b = GET_NEXT_FREE m b
                    \<and> GET_PREV_FREE m' b = GET_PREV_FREE m b"
          using eff[of b] by auto
      qed
      have "dls m' 0 (root st j) (LS j) 0 = dls m 0 (root st j) (LS j) 0"
        using same by (rule dls_cong)
      then show ?thesis using bj(1) f rt by (simp add: m'_def)
    qed
  qed
  then show "buckets (delete_block st N) (\<lambda>i. filter (\<lambda>b. b \<noteq> N) (LS i))"
    by (simp add: st'_def)
qed

lemma add_block_buckets:
  assumes n: "nodes (mem st) lo hi G" and bk: "buckets st LS"
    and sub: "\<forall>i. 0 \<le> i \<and> i < 20 \<longrightarrow> set (LS i) \<subseteq> G"
    and M: "M \<in> G" and fresh: "\<forall>i. 0 \<le> i \<and> i < 20 \<longrightarrow> M \<notin> set (LS i)"
  shows "buckets (add_block st M) (\<lambda>i. if i = cls (mem st) M then M # LS i else LS i)"
    and "same_tags (mem st) (mem (add_block st M))"
proof -
  define m where "m = mem st"
  define i where "i = cls m M"
  define st' where "st' = add_block st M"
  define m' where "m' = mem st'"
  define r where "r = root st i"
  note n' = n[folded m_def]
  have ir: "0 \<le> i" "i < 20" using cls_range[of m M] by (simp_all add: i_def)
  have len: "length (free_lists st) = 20" using bk by (simp add: buckets_def)
  have bi: "dls m 0 r (LS i) 0" "distinct (LS i)" "\<forall>b \<in> set (LS i). cls m b = i"
    using bk ir by (simp_all add: buckets_def m_def r_def)
  have subi: "set (LS i) \<subseteq> G" using sub ir by blast
  have Mn: "M \<notin> set (LS i)" using fresh ir by blast
  have Mr: "BPALIGNED M" "M \<noteq> 0" using nodes_range[OF n M] by simp_all
  have rs: "r = (if LS i = [] then 0 else hd (LS i))" using dls_start[OF bi(1)] .
  have rin: "r \<noteq> 0 \<Longrightarrow> r \<in> set (LS i)" using rs by (auto split: if_splits)
  have rG: "r \<noteq> 0 \<Longrightarrow> r \<in> G" using rin subi by blast
  have rM: "r \<noteq> M" using rin Mn Mr(2) by auto
  have read: "get_list (ucast (GET_SIZE (mem st) (HDRP M))) = i" by (simp add: i_def cls_def m_def)
  have mem': "m' = (if r \<noteq> 0 then SET_PREV_FREE (SET_NEXT_FREE (SET_PREV_FREE m r M) M r) M M
                    else SET_NEXT_FREE (SET_PREV_FREE m M M) M M)"
    by (simp add: m'_def st'_def add_block_mem Let_def r_def i_def cls_def m_def NULL_def)
  have fl': "free_lists st' = (free_lists st)[nat i := M]"
    by (simp add: st'_def add_block_free_lists read)
  have eff: "\<And>b. b \<in> G \<Longrightarrow>
      GET_NEXT_FREE m' b = (if b = M then r else GET_NEXT_FREE m b)
      \<and> GET_PREV_FREE m' b = (if b = M then 0 else if b = r then M else GET_PREV_FREE m b)"
  proof -
    fix b assume b: "b \<in> G"
    have b0: "b \<noteq> 0" using nodes_range[OF n b] by simp
    show "GET_NEXT_FREE m' b = (if b = M then r else GET_NEXT_FREE m b)
      \<and> GET_PREV_FREE m' b = (if b = M then 0 else if b = r then M else GET_PREV_FREE m b)"
    proof (cases "r = 0")
      case True
      define m1 where "m1 = SET_PREV_FREE m M M"
      have n1: "nodes m1 lo hi G" unfolding m1_def using n' M by (rule nodes_SET(2))
      have e: "m' = SET_NEXT_FREE m1 M M" using True mem' by (simp add: m1_def)
      have a1: "GET_PREV_FREE m1 b = (if b = M then 0 else GET_PREV_FREE m b)"
        "GET_NEXT_FREE m1 b = GET_NEXT_FREE m b"
        using prev_after_SET_PREV[OF n' M M b] by (simp_all add: m1_def)
      have a2: "GET_NEXT_FREE m' b = (if b = M then 0 else GET_NEXT_FREE m1 b)"
        "GET_PREV_FREE m' b = GET_PREV_FREE m1 b"
        using next_after_SET_NEXT[OF n1 M M b] by (simp_all add: e)
      show ?thesis using a1 a2 True b0 by auto
    next
      case False
      note rg = rG[OF False]
      define m1 where "m1 = SET_PREV_FREE m r M"
      define m2 where "m2 = SET_NEXT_FREE m1 M r"
      have n1: "nodes m1 lo hi G" unfolding m1_def using n' rg by (rule nodes_SET(2))
      have n2: "nodes m2 lo hi G" unfolding m2_def using n1 M by (rule nodes_SET(1))
      have e: "m' = SET_PREV_FREE m2 M M" using False mem' by (simp add: m1_def m2_def)
      have a1: "GET_PREV_FREE m1 b = (if b = r then M else GET_PREV_FREE m b)"
        "GET_NEXT_FREE m1 b = GET_NEXT_FREE m b"
        using prev_after_SET_PREV[OF n' rg M b] rM by (auto simp: m1_def)
      have a2: "GET_NEXT_FREE m2 b = (if b = M then r else GET_NEXT_FREE m1 b)"
        "GET_PREV_FREE m2 b = GET_PREV_FREE m1 b"
        using next_after_SET_NEXT[OF n1 M rg b] rM by (auto simp: m2_def)
      have a3: "GET_PREV_FREE m' b = (if b = M then 0 else GET_PREV_FREE m2 b)"
        "GET_NEXT_FREE m' b = GET_NEXT_FREE m2 b"
        using prev_after_SET_PREV[OF n2 M M b] by (simp_all add: e)
      show ?thesis using a1 a2 a3 by simp
    qed
  qed
  have te: "same_tags m m'"
  proof -
    have "r \<noteq> 0 \<Longrightarrow> BPALIGNED r" using nodes_range(3)[OF n rG] by simp
    then show ?thesis
      using Mr(1) by (auto simp: mem' same_tags_PNP same_tags_PN)
  qed
  show "same_tags (mem st) (mem (add_block st M))" using te by (simp add: m_def m'_def st'_def)
  have clsG: "\<And>b. b \<in> G \<Longrightarrow> cls m' b = cls m b"
    using same_tags_SIZE[OF te al8_HDRP[OF nodes_range(3)[OF n]]] by (simp add: cls_def)
  have "buckets st' (\<lambda>j. if j = i then M # LS j else LS j)"
    unfolding buckets_def
  proof (intro conjI allI impI)
    show "length (free_lists st') = 20" using len fl' by simp
  next
    fix j :: int assume j: "0 \<le> j \<and> j < 20"
    have bj: "dls m 0 (root st j) (LS j) 0" "distinct (LS j)" "\<forall>b \<in> set (LS j). cls m b = j"
      using bk j by (simp_all add: buckets_def m_def)
    have subj: "set (LS j) \<subseteq> G" using sub j by blast
    have Mj: "M \<notin> set (LS j)" using fresh j by blast
    show "distinct (if j = i then M # LS j else LS j)" using bj(2) Mj by auto
    show "\<forall>b \<in> set (if j = i then M # LS j else LS j). cls (mem st') b = j"
      using bj(3) clsG subj M by (auto simp: m'_def i_def)
    show "dls (mem st') 0 (root st' j) (if j = i then M # LS j else LS j) 0"
    proof (cases "j = i")
      case True
      have rt: "root st' i = M" using fl' len ir by (simp add: root_def)
      have "dls m' 0 M (M # LS i) 0"
      proof (rule dls_push[OF bi(1) Mr(2) Mn _ _ _ _ bi(2)])
        show "GET_NEXT_FREE m' M = r" "GET_PREV_FREE m' M = 0" using eff[OF M] by simp_all
        show "\<forall>b \<in> set (LS i). GET_NEXT_FREE m' b = GET_NEXT_FREE m b"
          using eff subi Mn by auto
        show "\<forall>b \<in> set (LS i). GET_PREV_FREE m' b = (if b = r then M else GET_PREV_FREE m b)"
          using eff subi Mn by auto
      qed
      then show ?thesis using True rt by (simp add: m'_def)
    next
      case False
      have rt: "root st' j = root st j"
        using fl' len ir j False by (auto simp: root_def nat_eq_iff)
      have same: "\<forall>b \<in> set (LS j). GET_NEXT_FREE m' b = GET_NEXT_FREE m b
                    \<and> GET_PREV_FREE m' b = GET_PREV_FREE m b"
      proof
        fix b assume b: "b \<in> set (LS j)"
        then have cj: "cls m b = j" using bj(3) by simp
        have "b \<noteq> r"
        proof
          assume "b = r"
          moreover have "b \<noteq> 0" using nodes_range(4)[OF n] b subj by blast
          ultimately have "b \<in> set (LS i)" using rin by simp
          then show False using bi(3) cj False by simp
        qed
        moreover have "b \<noteq> M" using b Mj by auto
        moreover have "b \<in> G" using b subj by blast
        ultimately show "GET_NEXT_FREE m' b = GET_NEXT_FREE m b
                    \<and> GET_PREV_FREE m' b = GET_PREV_FREE m b"
          using eff[of b] by auto
      qed
      have "dls m' 0 (root st j) (LS j) 0 = dls m 0 (root st j) (LS j) 0"
        using same by (rule dls_cong)
      then show ?thesis using bj(1) False rt by (simp add: m'_def)
    qed
  qed
  then show "buckets (add_block st M) (\<lambda>i. if i = cls (mem st) M then M # LS i else LS i)"
    by (simp add: st'_def i_def m_def)
qed

subsection \<open>Buckets of a consistent heap\<close>

lemma seg_disjoint:
  "seg m p bs x \<Longrightarrow> b \<in> set bs \<Longrightarrow> c \<in> set bs \<Longrightarrow> b \<noteq> c
   \<Longrightarrow> unat b + blk_size m b \<le> unat c \<or> unat c + blk_size m c \<le> unat b"
proof (induction bs arbitrary: p)
  case Nil then show ?case by simp
next
  case (Cons a bs)
  have a: "a = p" "16 \<le> blk_size m p" "seg m (NEXT_BLKP m p) bs x" using Cons.prems(1) by simp_all
  have un: "unat (NEXT_BLKP m p) = unat p + blk_size m p"
    using Cons.prems(1) unat_NEXT_BLKP[of p m x] by simp
  show ?case
  proof (cases "b = a")
    case True
    then have "c \<in> set bs" using Cons.prems by auto
    then have "unat (NEXT_BLKP m p) \<le> unat c" using seg_mem[OF a(3)] by simp
    then show ?thesis using True a(1) un by simp
  next
    case bn: False
    show ?thesis
    proof (cases "c = a")
      case True
      have "b \<in> set bs" using Cons.prems bn by auto
      then have "unat (NEXT_BLKP m p) \<le> unat b" using seg_mem[OF a(3)] by simp
      then show ?thesis using True a(1) un by simp
    next
      case False
      then show ?thesis using Cons.IH[OF a(3)] Cons.prems bn by auto
    qed
  qed
qed

lemma seg_distinct: "seg m p bs x \<Longrightarrow> distinct bs"
proof (induction bs arbitrary: p)
  case Nil then show ?case by simp
next
  case (Cons a bs)
  have a: "a = p" "16 \<le> blk_size m p" "seg m (NEXT_BLKP m p) bs x" using Cons.prems(1) by simp_all
  have un: "unat (NEXT_BLKP m p) = unat p + blk_size m p"
    using Cons.prems(1) unat_NEXT_BLKP[of p m x] by simp
  have "a \<notin> set bs"
  proof
    assume "a \<in> set bs"
    then have "unat (NEXT_BLKP m p) \<le> unat a" using seg_mem[OF a(3)] by simp
    then show False using a(1,2) un by simp
  qed
  then show ?case using Cons.IH[OF a(3)] by simp
qed

lemma seg_nodes:
  assumes sg: "seg m h bs e" and al: "BPALIGNED h" and h8: "8 \<le> unat h"
    and span: "unat e - unat h < 2 ^ 31"
  shows "nodes m (unat h) (unat e) (set bs)"
  unfolding nodes_def
proof (intro conjI ballI impI)
  show "8 \<le> unat h" by (rule h8)
  show "unat e < 2 ^ 64" using unsigned_less[of e, where 'a = nat] by simp
  show "unat e - unat h < 2 ^ 31" by (rule span)
next
  fix b assume b: "b \<in> set bs"
  show "BPALIGNED b" using seg_al8[OF al sg] b by simp
  show "unat h \<le> unat b" "16 \<le> blk_size m b" "unat b + blk_size m b \<le> unat e"
    using seg_mem[OF sg b] by simp_all
next
  fix b c assume "b \<in> set bs" "c \<in> set bs" "b \<noteq> c"
  then show "unat b + blk_size m b \<le> unat c \<or> unat c + blk_size m c \<le> unat b"
    using seg_disjoint[OF sg] by blast
qed

lemma set_free_sizes:
  assumes "BPALIGNED bp" "BPALIGNED q"
  shows "GET_SIZE (mem (set_free st bp)) q = GET_SIZE (mem st) q"
  using set_free_tags[OF assms, of st] by (simp add: GET_SIZE_def size_and_not1')

lemma buckets_roots_aligned:
  assumes bk: "buckets st LS" and n: "nodes m lo hi G"
    and sub: "\<forall>i. 0 \<le> i \<and> i < 20 \<longrightarrow> set (LS i) \<subseteq> G"
  shows "roots_aligned st"
proof -
  have len: "length (free_lists st) = 20" using bk by (simp add: buckets_def)
  have "\<forall>k < 20. BPALIGNED (free_lists st ! k)"
  proof (intro allI impI)
    fix k :: nat assume k: "k < 20"
    have ir: "0 \<le> int k \<and> int k < 20" using k by simp
    have d: "dls (mem st) 0 (root st (int k)) (LS (int k)) 0" using bk ir by (simp add: buckets_def)
    have s: "set (LS (int k)) \<subseteq> G" using sub ir by blast
    have r: "root st (int k) = free_lists st ! k" by (simp add: root_def)
    show "BPALIGNED (free_lists st ! k)"
    proof (cases "LS (int k) = []")
      case True
      then show ?thesis using dls_start[OF d] r by simp
    next
      case False
      then have "root st (int k) \<in> set (LS (int k))" using dls_start[OF d] by simp
      then show ?thesis using nodes_range(3)[OF n] s r by auto
    qed
  qed
  then show ?thesis using len by (simp add: roots_aligned_def list_all_length)
qed

text \<open>A consistent heap has its buckets in order.\<close>

lemma consistent_buckets:
  assumes c: "consistent st"
    and hb: "heap_blocks (mem st) (eptr st + 8) (heap_listp st) = Some bs"
  shows "buckets st (bucket st bs)"
    and "\<forall>i. 0 \<le> i \<and> i < 20 \<longrightarrow>
           set (bucket st bs i) = {b \<in> set bs. is_free (mem st) b \<and> cls (mem st) b = i}"
proof -
  have l: "layout_ok st" and ok: "list_all (bucket_ok st bs) [0..19]"
    using c hb by (simp_all add: consistent_def)
  have len: "length (free_lists st) = 20" using l by (simp add: layout_ok_def roots_aligned_def)
  have each: "\<And>i. 0 \<le> i \<and> i < 20 \<Longrightarrow> bucket_ok st bs i"
    using ok by (simp add: list_all_iff)
  show s: "\<forall>i. 0 \<le> i \<and> i < 20 \<longrightarrow>
           set (bucket st bs i) = {b \<in> set bs. is_free (mem st) b \<and> cls (mem st) b = i}"
    using each by (auto simp: bucket_ok_def)
  show "buckets st (bucket st bs)"
    unfolding buckets_def
  proof (intro conjI allI impI)
    show "length (free_lists st) = 20" by (rule len)
  next
    fix i :: int assume i: "0 \<le> i \<and> i < 20"
    show "dls (mem st) 0 (root st i) (bucket st bs i) 0" "distinct (bucket st bs i)"
      using each[OF i] by (simp_all add: bucket_ok_def LIST_END_def)
    show "\<forall>b \<in> set (bucket st bs i). cls (mem st) b = i" using s i by auto
  qed
qed

lemma bucket_okI:
  assumes d: "dls (mem st) 0 (root st i) cs 0" and dist: "distinct cs"
    and s: "set cs = {b \<in> set bs. is_free (mem st) b \<and> cls (mem st) b = i}"
    and dbs: "distinct bs"
  shows "bucket st bs i = cs" and "bucket_ok st bs i"
proof -
  have "set cs \<subseteq> set bs" using s by auto
  then have "card (set cs) \<le> card (set bs)" by (simp add: card_mono)
  then have "length cs \<le> length bs" using dist dbs by (simp add: distinct_card)
  then show e: "bucket st bs i = cs" using chain_of_dls[OF d] by (simp add: bucket_def)
  show "bucket_ok st bs i" using d dist s by (auto simp: bucket_ok_def e LIST_END_def)
qed

lemma nodes_same_tags:
  assumes n: "nodes m lo hi G" and te: "same_tags m m'"
  shows "nodes m' lo hi G"
proof (rule nodes_same_size[OF n])
  show "\<forall>b \<in> G. GET_SIZE m' (HDRP b) = GET_SIZE m (HDRP b)"
    using same_tags_SIZE[OF te al8_HDRP[OF nodes_range(3)[OF n]]] by simp
qed

lemma cls_same_tags: "same_tags m m' \<Longrightarrow> BPALIGNED b \<Longrightarrow> cls m' b = cls m b"
  using same_tags_SIZE[of m m' "HDRP b"] by (simp add: cls_def al8_HDRP)

lemma foldl_delete_buckets:
  assumes n: "nodes (mem s) lo hi G" and bk: "buckets s LS"
    and sub: "\<forall>i. 0 \<le> i \<and> i < 20 \<longrightarrow> set (LS i) \<subseteq> G"
    and dist: "distinct A" and A: "\<forall>x \<in> set A. x \<in> set (LS (cls (mem s) x))"
  shows "buckets (foldl delete_block s A) (\<lambda>i. filter (\<lambda>b. b \<notin> set A) (LS i))
       \<and> same_tags (mem s) (mem (foldl delete_block s A))"
  using n bk sub dist A
proof (induction A arbitrary: s LS)
  case Nil
  then show ?case by simp
next
  case (Cons x A)
  define s' where "s' = delete_block s x"
  define LS' where "LS' = (\<lambda>i. filter (\<lambda>b. b \<noteq> x) (LS i))"
  have xin: "x \<in> set (LS (cls (mem s) x))" using Cons.prems(5) by simp
  have bk': "buckets s' LS'" and te: "same_tags (mem s) (mem s')"
    using delete_block_buckets[OF Cons.prems(1,2,3) xin] by (simp_all add: s'_def LS'_def)
  have n': "nodes (mem s') lo hi G" using Cons.prems(1) te by (rule nodes_same_tags)
  have sub': "\<forall>i. 0 \<le> i \<and> i < 20 \<longrightarrow> set (LS' i) \<subseteq> G"
    using Cons.prems(3) by (auto simp: LS'_def)
  have d': "distinct A" using Cons.prems(4) by simp
  have A': "\<forall>y \<in> set A. y \<in> set (LS' (cls (mem s') y))"
  proof
    fix y assume y: "y \<in> set A"
    then have yin: "y \<in> set (LS (cls (mem s) y))" using Cons.prems(5) by simp
    have "set (LS (cls (mem s) y)) \<subseteq> G" using Cons.prems(3) cls_range[of "mem s" y] by blast
    then have "BPALIGNED y" using yin nodes_range(3)[OF Cons.prems(1)] by blast
    then have "cls (mem s') y = cls (mem s) y" using te by (rule cls_same_tags[rotated])
    moreover have "y \<noteq> x" using y Cons.prems(4) by auto
    ultimately show "y \<in> set (LS' (cls (mem s') y))" using yin by (simp add: LS'_def)
  qed
  have ih: "buckets (foldl delete_block s' A) (\<lambda>i. filter (\<lambda>b. b \<notin> set A) (LS' i))
       \<and> same_tags (mem s') (mem (foldl delete_block s' A))"
    using Cons.IH[OF n' bk' sub' d' A'] .
  have "(\<lambda>i. filter (\<lambda>b. b \<notin> set A) (LS' i)) = (\<lambda>i. filter (\<lambda>b. b \<notin> set (x # A)) (LS i))"
    by (rule ext) (auto simp: LS'_def intro: filter_cong)
  then show ?case
    using ih same_tags_trans[OF te] by (simp add: s'_def)
qed

lemma foldl_delete_globals [simp]:
  "heap_listp (foldl delete_block s A) = heap_listp s" "eptr (foldl delete_block s A) = eptr s"
  by (induction A arbitrary: s) simp_all


subsection \<open>The heap walk after free\<close>

lemma free_layout:
  assumes c: "layout_ok st"
    and hb: "heap_blocks (mem st) (eptr st + 8) (heap_listp st) = Some bs"
    and bp: "bp \<in> set (tl bs)" and alloc: "\<not> is_free (mem st) bp"
  shows "\<exists>pre mid post T.
           bs = pre @ mid @ post \<and> bp \<in> set mid
           \<and> (\<forall>b \<in> set mid. b \<noteq> bp \<longrightarrow> is_free (mem st) b)
           \<and> heap_blocks (mem (free st bp)) (eptr (free st bp) + 8) (heap_listp (free st bp))
               = Some (pre @ hd mid # post)
           \<and> is_free (mem (free st bp)) (hd mid)
           \<and> root (free st bp) (get_list (ucast (GET_SIZE (mem (free st bp)) (HDRP (hd mid)))))
               = hd mid
           \<and> no_adjacent_free (mem (free st bp)) (pre @ hd mid # post)
           \<and> layout_ok (free st bp)
           \<and> (\<forall>b \<in> set (pre @ post). GET (mem (free st bp)) (HDRP b) = GET (mem st) (HDRP b))
           \<and> free st bp
               = add_block (if mid = [bp] then set_free st bp
                            else set_size (foldl delete_block (set_free st bp)
                                             (filter (\<lambda>x. x \<noteq> bp) (rev mid))) (hd mid) T)
                   (hd mid)"
proof -
  define m where "m = mem st"
  define h where "h = heap_listp st"
  define e where "e = eptr st + 8"
  note defs = m_def[symmetric] h_def[symmetric] e_def[symmetric]
  have c': "h \<noteq> 0" "BPALIGNED h" "8 \<le> unat h" "unat (eptr st) + 8 < 2 ^ 64"
    "unat (eptr st) + 8 - unat h < 2 ^ 31" "GET m (eptr st) = 1" "roots_aligned st"
    "bs \<noteq> []" "\<not> is_free m (hd bs)" "list_all (HEF m) bs"
    "no_adjacent_free m bs" "list_all (\<lambda>b. is_free m b \<longrightarrow> links_aligned m b) bs"
    using c hb by (simp_all add: layout_ok_def defs)
  have ue: "unat e = unat (eptr st) + 8" using c'(4) by (simp add: e_def unat_word_ariths)
  have sg: "seg m h bs e" using hb by (simp add: heap_blocks_seg defs)
  have bpin: "bp \<in> set bs" using bp c'(8) by (meson list.set_sel(2))
  define xb where "xb = NEXT_BLKP m bp"
  obtain pre0 post0 where d0: "bs = pre0 @ bp # post0" and sp0: "seg m h pre0 bp"
    and sb: "seg m bp [bp] xb" and spost: "seg m xb post0 e"
    using seg_split[OF sg bpin] xb_def by blast
  have uxb: "unat xb = unat bp + blk_size m bp" using sb unat_NEXT_BLKP[of bp m xb] by (simp add: xb_def)
  have s16: "16 \<le> blk_size m bp" using sb by simp
  have pre0ne: "pre0 \<noteq> []"
  proof
    assume "pre0 = []"
    then have "bp \<in> set post0" using bp d0 by simp
    then have "unat xb \<le> unat bp" using seg_mem[OF spost] by simp
    then show False using uxb s16 by simp
  qed
  define P where "P = last pre0"
  define pre1 where "pre1 = butlast pre0"
  have d1: "pre0 = pre1 @ [P]" using pre0ne by (simp add: P_def pre1_def)
  obtain y where y: "seg m h pre1 y" "seg m y [P] bp" using sp0 d1 seg_append by blast
  then have yP: "y = P" by simp
  have sp1: "seg m h pre1 P" and sP: "seg m P [P] bp" using y yP by simp_all
  have nP: "NEXT_BLKP m P = bp" and P16: "16 \<le> blk_size m P" using sP by simp_all
  have uP: "unat bp = unat P + blk_size m P" using sP unat_NEXT_BLKP[of P m bp] by simp
  have Pal: "BPALIGNED P" using seg_al8[OF c'(2) sp1] by simp
  have bal: "BPALIGNED bp" using seg_al8[OF Pal sP] by simp
  have xbal: "BPALIGNED xb" using seg_al8[OF bal sb] by simp
  have hP: "unat h \<le> unat P" using seg_le[OF sp1] .
  have xbe: "unat xb \<le> unat e" using seg_le[OF spost] .
  have P8: "8 \<le> unat P" and b8: "8 \<le> unat bp" using hP c'(3) uP by simp_all
  have Pin: "P \<in> set bs" using d0 d1 by simp
  have hefP: "HEF m P" and hefB: "HEF m bp" using c'(10) Pin bpin by (auto simp: list_all_iff)
  have bp0: "bp \<noteq> 0" using b8 by auto
  have nxb: "xb \<noteq> bp" using uxb s16 by auto
  have nPb: "P \<noteq> bp" using uP P16 by auto
  \<comment> \<open>clearing the allocation bit\<close>
  define s1 where "s1 = set_free st bp"
  define m1 where "m1 = mem s1"
  have fr1: "frame m m1 (unat bp - 8) (unat xb - 8)"
    using set_free_region(1)[OF bal b8, of st xb] s16 uxb by (simp add: m1_def s1_def defs)
  have hB1: "GET m1 (HDRP bp) = GET m (HDRP bp) AND NOT 1"
    using set_free_region(2)[OF bal b8, of st xb] s16 uxb by (simp add: m1_def s1_def defs)
  have fB1: "GET m1 (FTRP m bp) = GET m (FTRP m bp) AND NOT 1"
    using set_free_region(3)[OF bal b8, of st xb] s16 uxb by (simp add: m1_def s1_def defs)
  have szB1: "GET_SIZE m1 (HDRP bp) = GET_SIZE m (HDRP bp)"
    using hB1 by (simp add: GET_SIZE_def size_and_not1')
  have free1: "is_free m1 bp"
    using hB1 by (simp add: is_free_def GET_ALLOC_def word_bw_assocs)
  have ft1: "FTRP m1 bp = FTRP m bp" using szB1 by (simp add: FTRP_def)
  have hef1: "HEF m1 bp" using hefB hB1 fB1 ft1 by (simp add: HEF_def)
  have lm1: "link_mono m m1" using set_free_link_mono[OF bal, of st] by (simp add: m1_def s1_def defs)
  have ro1: "roots_aligned s1" using c'(7) by (simp add: roots_aligned_def s1_def)
  have nxt1: "NEXT_BLKP m1 bp = xb" using szB1 by (simp add: NEXT_BLKP_def xb_def)
  \<comment> \<open>the previous block, found through its footer\<close>
  have fP: "FTRP m P = bp - 16" using nP by (simp add: FTRP_def NEXT_BLKP_def WSIZE_def)
  have ufP: "unat (FTRP m P) = unat bp - 16" using unat_FTRP[OF P16, of bp] uP by simp
  have ltf: "unat (FTRP m P) < unat bp - 8" using ufP uP P16 P8 by arith
  have fP1: "GET m1 (FTRP m P) = GET m (FTRP m P)"
    using frame_GET[OF fr1 al8_FTRP[OF Pal, of m] disjI1[OF ltf]] .
  then have "GET_SIZE m1 (bp - 16) = GET_SIZE m (HDRP P)"
    using hefP by (simp add: HEF_def fP GET_SIZE_def)
  then have prev1: "PREV_BLKP m1 bp = P"
    using nP by (auto simp: PREV_BLKP_def NEXT_BLKP_def WSIZE_def)
  have uhP: "unat (HDRP P) = unat P - 8" using P8 by (rule unat_HDRP)
  have lth: "unat (HDRP P) < unat bp - 8" using uhP uP P16 P8 by arith
  have hP1: "GET m1 (HDRP P) = GET m (HDRP P)"
    using frame_GET[OF fr1 al8_HDRP[OF Pal] disjI1[OF lth]] .
  have x8: "8 \<le> unat xb" using uxb b8 by simp
  have uhx: "unat (HDRP xb) = unat xb - 8" using x8 by (rule unat_HDRP)
  have gex: "unat xb - 8 \<le> unat (HDRP xb)" using uhx by simp
  have hx1: "GET m1 (HDRP xb) = GET m (HDRP xb)"
    using frame_GET[OF fr1 al8_HDRP[OF xbal] disjI2[OF gex]] .
  have fr: "free st bp = snd (coalesce s1 bp)"
    using bp0 c'(1) by (simp add: free_def Let_def s1_def h_def)
  have g1: "heap_listp s1 = heap_listp st" "eptr s1 = eptr st" by (simp_all add: s1_def)
  \<comment> \<open>what coalesce reads\<close>
  have szB: "(ucast (GET_SIZE m1 (HDRP bp)) :: 64 word) = xb - bp"
    using szB1 by (simp add: xb_def NEXT_BLKP_def)
  have szB32: "GET_SIZE m1 (HDRP bp) = ucast (xb - bp)"
    using szB1 by (simp add: xb_def NEXT_BLKP_def ucast_down_up)
  have szP: "(ucast (GET_SIZE m (HDRP P)) :: 64 word) = bp - P"
    using nP by (auto simp: NEXT_BLKP_def)
  have pa_iff: "GET_ALLOC m1 (HDRP P) = 0 \<longleftrightarrow> is_free m P"
    using hP1 by (simp add: is_free_def GET_ALLOC_def)
  have span: "unat e - unat h < 2 ^ 31" using c'(5) ue by simp
  \<comment> \<open>the next block, when there is one\<close>
  have last_block: "post0 = [] \<Longrightarrow> GET_ALLOC m1 (HDRP xb) \<noteq> 0"
  proof -
    assume "post0 = []"
    then have "xb = e" using spost by simp
    then have "HDRP xb = eptr st" by (simp add: e_def HDRP_def WSIZE_def)
    then show ?thesis using hx1 c'(6) by (simp add: GET_ALLOC_def)
  qed
  have next_block: "post0 \<noteq> [] \<Longrightarrow>
      \<exists>post1 xn. post0 = xb # post1 \<and> seg m xb [xb] xn \<and> seg m xn post1 e
         \<and> (GET_ALLOC m1 (HDRP xb) = 0 \<longleftrightarrow> is_free m xb)
         \<and> (is_free m xb \<longrightarrow> links_aligned m1 xb \<and> (post1 \<noteq> [] \<longrightarrow> \<not> is_free m (hd post1)))
         \<and> GET_SIZE m1 (HDRP xb) = GET_SIZE m (HDRP xb)
         \<and> (ucast (GET_SIZE m (HDRP xb)) :: 64 word) = xn - xb
         \<and> BPALIGNED xn \<and> unat xb + 16 \<le> unat xn \<and> unat xn \<le> unat e"
  proof -
    assume ne: "post0 \<noteq> []"
    then obtain N post1 where p0: "post0 = N # post1" by (cases post0) auto
    then have N: "N = xb" using spost by simp
    define xn where "xn = NEXT_BLKP m xb"
    have Nin: "xb \<in> set post0" using p0 N by simp
    have nb: "unat xb + blk_size m xb \<le> unat e" "16 \<le> blk_size m xb"
      using seg_mem[OF spost Nin] by simp_all
    have uxn: "unat xn = unat xb + blk_size m xb"
      using unat_NEXT_BLKP[OF nb(1)] by (simp add: xn_def)
    have sN: "seg m xb [xb] xn" using nb uxn by (simp add: xn_def)
    have sp1': "seg m xn post1 e" using spost p0 N by (simp add: xn_def)
    have ufN: "unat (FTRP m xb) = unat xb + blk_size m xb - 16" using unat_FTRP[OF nb(2,1)] .
    have gef: "unat xb - 8 \<le> unat (FTRP m xb)" using ufN nb(2) by arith
    have fN1: "GET m1 (FTRP m xb) = GET m (FTRP m xb)"
      using frame_GET[OF fr1 al8_FTRP[OF xbal, of m] disjI2[OF gef]] .
    note same = block_tags_same[OF xbal hx1 fN1]
    have fr_iff: "GET_ALLOC m1 (HDRP xb) = 0 \<longleftrightarrow> is_free m xb"
      using hx1 by (simp add: is_free_def GET_ALLOC_def)
    have la1: "is_free m xb \<Longrightarrow> links_aligned m1 xb"
    proof -
      assume "is_free m xb"
      moreover have "xb \<in> set bs" using d0 Nin by simp
      ultimately have "links_aligned m xb" using c'(12) by (auto simp: list_all_iff)
      then show ?thesis using links_aligned_mono[OF lm1 xbal same(4)] by simp
    qed
    have nn: "is_free m xb \<Longrightarrow> post1 \<noteq> [] \<Longrightarrow> \<not> is_free m (hd post1)"
    proof -
      assume f: "is_free m xb" and ne1: "post1 \<noteq> []"
      then obtain c cs where "post1 = c # cs" by (cases post1) auto
      then have "bs = (pre0 @ [bp]) @ xb # c # cs" using d0 p0 N by simp
      then have "\<not> (is_free m xb \<and> is_free m c)" using c'(11) no_adj_mid by metis
      then show ?thesis using f \<open>post1 = c # cs\<close> by simp
    qed
    have "GET_SIZE m1 (HDRP xb) = GET_SIZE m (HDRP xb)" using hx1 by (simp add: GET_SIZE_def)
    moreover have "(ucast (GET_SIZE m (HDRP xb)) :: 64 word) = xn - xb"
      by (simp add: xn_def NEXT_BLKP_def)
    moreover have "BPALIGNED xn" using seg_al8[OF xbal sN] by simp
    moreover have "unat xb + 16 \<le> unat xn" using uxn nb(2) by simp
    moreover have "unat xn \<le> unat e" using uxn nb(1) by simp
    ultimately show ?thesis using p0 N sN sp1' fr_iff la1 nn by blast
  qed
  \<comment> \<open>the previous block, when it is free\<close>
  have prev_free: "is_free m P \<Longrightarrow>
      pre1 \<noteq> [] \<and> \<not> is_free m (last pre1) \<and> links_aligned m1 P
      \<and> GET_SIZE m1 (HDRP P) = GET_SIZE m (HDRP P)"
  proof -
    assume f: "is_free m P"
    have ne: "pre1 \<noteq> []"
    proof
      assume "pre1 = []"
      then have "hd bs = P" using d0 d1 by simp
      then show False using c'(9) f by simp
    qed
    have "bs = butlast pre1 @ last pre1 # P # (bp # post0)" using d0 d1 ne by simp
    then have "\<not> (is_free m (last pre1) \<and> is_free m P)" using c'(11) no_adj_mid by metis
    then have l: "\<not> is_free m (last pre1)" using f by simp
    have "links_aligned m P" using c'(12) Pin f by (auto simp: list_all_iff)
    then have "links_aligned m1 P"
      using links_aligned_mono[OF lm1 Pal block_tags_same(4)[OF Pal hP1 fP1]] by simp
    moreover have "GET_SIZE m1 (HDRP P) = GET_SIZE m (HDRP P)" using hP1 by (simp add: GET_SIZE_def)
    ultimately show ?thesis using ne l by simp
  qed
  have hb0: "heap_blocks (mem st) (eptr st + 8) (heap_listp st) = Some (pre0 @ bp # post0)"
    using hb d0 by simp
  show ?thesis
  proof (cases "is_free m P")
    case pF: False
    have nbP: "\<not> is_free (mem st) (last pre0)" using pF by (simp add: P_def m_def)
    show ?thesis
    proof (cases "post0 \<noteq> [] \<and> is_free m (hd post0)")
      case nF: False
      \<comment> \<open>case 1: both neighbours allocated\<close>
      have na0: "GET_ALLOC m1 (HDRP xb) \<noteq> 0"
      proof (cases "post0 = []")
        case True then show ?thesis by (rule last_block)
      next
        case False
        then show ?thesis using next_block[OF False] nF by auto
      qed
      have co: "coalesce s1 bp = (bp, add_block s1 bp)"
        using prev1 nxt1 pa_iff pF na0 by (simp add: coalesce_def Let_def m1_def[symmetric])
      note fin = after_add_block[OF bal ro1 fr1[unfolded m1_def] lm1[unfolded m1_def]
          szB32[unfolded m1_def] free1[unfolded m1_def] hef1[unfolded m1_def]]
      have "layout_ok (add_block s1 bp)
            \<and> heap_blocks (mem (add_block s1 bp)) (eptr (add_block s1 bp) + 8)
                  (heap_listp (add_block s1 bp)) = Some (pre0 @ bp # post0)
            \<and> no_adjacent_free (mem (add_block s1 bp)) (pre0 @ bp # post0)
            \<and> (\<forall>b \<in> set (pre0 @ post0). GET (mem (add_block s1 bp)) (HDRP b) = GET (mem st) (HDRP b))"
      proof (rule layout_after_merge[OF c _ _ _ _ _ pre0ne nbP, where mid = "[bp]" and post = post0
            and M = bp and xe = xb])
        show "heap_blocks (mem st) (eptr st + 8) (heap_listp st) = Some (pre0 @ [bp] @ post0)"
          using hb0 by simp
        show "seg (mem st) (heap_listp st) pre0 bp" using sp0 by (simp add: defs)
        show "seg (mem st) bp [bp] xb" using sb by (simp add: defs)
        show "[bp] \<noteq> []" by simp
        show "seg (mem st) xb post0 (eptr st + 8)" using spost by (simp add: defs)
        show "post0 \<noteq> [] \<longrightarrow> \<not> is_free (mem st) (hd post0)" using nF by (auto simp: defs)
        show "heap_listp (add_block s1 bp) = heap_listp st" "eptr (add_block s1 bp) = eptr st"
          by (simp_all add: g1)
        show "roots_aligned (add_block s1 bp)" using fin(7) .
        show "frame (mem st) (mem (add_block s1 bp)) (unat bp - 8) (unat xb - 8)"
          using fin(1) by (simp add: defs)
        show "link_mono (mem st) (mem (add_block s1 bp))" using fin(2) by (simp add: defs)
        show "GET_SIZE (mem (add_block s1 bp)) (HDRP bp) = ucast (xb - bp)" using fin(3) .
        show "is_free (mem (add_block s1 bp)) bp" "HEF (mem (add_block s1 bp)) bp"
          "links_aligned (mem (add_block s1 bp)) bp" using fin(4,5,6) .
      qed
      then have res: "?this" .
      have e3: "s1 = set_free st bp"
        by (simp add: s1_def)
      show ?thesis
        apply (rule exI[where x = "pre0"])
        apply (rule exI[where x = "[bp]"])
        apply (rule exI[where x = "post0"])
        apply (rule exI[where x = "0"])
        using res fr co fin(4,8) d0 e3 by (simp add: m_def)
    next
      case nT: True
      \<comment> \<open>case 2: the next block is free\<close>
      obtain post1 xn where n: "post0 = xb # post1" "seg m xb [xb] xn" "seg m xn post1 e"
        "GET_ALLOC m1 (HDRP xb) = 0 \<longleftrightarrow> is_free m xb"
        "is_free m xb \<longrightarrow> links_aligned m1 xb \<and> (post1 \<noteq> [] \<longrightarrow> \<not> is_free m (hd post1))"
        "GET_SIZE m1 (HDRP xb) = GET_SIZE m (HDRP xb)"
        "(ucast (GET_SIZE m (HDRP xb)) :: 64 word) = xn - xb"
        "BPALIGNED xn" "unat xb + 16 \<le> unat xn" "unat xn \<le> unat e"
        using next_block nT by blast
      have nf: "is_free m xb" using nT n(1) by simp
      define s2 where "s2 = delete_block s1 xb"
      note d2 = delete_free_block[OF _ xbal ro1, folded s2_def]
      have la1: "links_aligned (mem s1) xb" using n(5) nf by (simp add: m1_def)
      have te2: "same_tags m1 (mem s2)" and lm2: "link_mono m1 (mem s2)" and ro2: "roots_aligned s2"
        using d2[OF la1] by (simp_all add: m1_def)
      have szN2: "(ucast (GET_SIZE (mem s2) (HDRP xb)) :: 64 word) = xn - xb"
        using same_tags_SIZE[OF te2 al8_HDRP[OF xbal]] n(6,7) by simp
      have tot: "xb - bp + (xn - xb) = xn - bp" by simp
      define s3 where "s3 = set_size s2 bp (xn - bp)"
      have co: "coalesce s1 bp = (bp, add_block s3 bp)"
        using prev1 nxt1 pa_iff pF n(4) nf szB szN2 tot
        by (simp add: coalesce_def Let_def m1_def[symmetric] s2_def[symmetric] s3_def)
      have b16: "unat bp + 16 \<le> unat xn" using n(9) uxb by simp
      have b32: "unat xn - unat bp < 2 ^ 32" using n(10) span hP uP by simp
      note ss = after_set_size[OF bal n(8) b8 b16 b32, of s2, folded s3_def]
      have fr3: "frame m (mem s3) (unat bp - 8) (unat xn - 8)"
        using frame_trans[OF frame_widen[OF fr1, of "unat bp - 8" "unat xn - 8"]
            frame_trans[OF frame_same_tags[OF te2] ss(1)]] n(9) by simp
      have lm3: "link_mono m (mem s3)"
        using link_mono_trans[OF lm1 link_mono_trans[OF lm2 set_size_link_mono[OF bal, of s2]]]
        by (simp add: s3_def)
      have ro3: "roots_aligned s3" using ro2 by (simp add: roots_aligned_def s3_def)
      note fin = after_add_block[OF bal ro3 fr3 lm3 ss(2,3,4)]
      have "layout_ok (add_block s3 bp)
            \<and> heap_blocks (mem (add_block s3 bp)) (eptr (add_block s3 bp) + 8)
                  (heap_listp (add_block s3 bp)) = Some (pre0 @ bp # post1)
            \<and> no_adjacent_free (mem (add_block s3 bp)) (pre0 @ bp # post1)
            \<and> (\<forall>b \<in> set (pre0 @ post1). GET (mem (add_block s3 bp)) (HDRP b) = GET (mem st) (HDRP b))"
      proof (rule layout_after_merge[OF c _ _ _ _ _ pre0ne nbP, where mid = "[bp, xb]" and post = post1
            and M = bp and xe = xn])
        show "heap_blocks (mem st) (eptr st + 8) (heap_listp st) = Some (pre0 @ [bp, xb] @ post1)"
          using hb0 n(1) by simp
        show "seg (mem st) (heap_listp st) pre0 bp" using sp0 by (simp add: defs)
        show "seg (mem st) bp [bp, xb] xn" using sb n(2) b16 uxb n(9) by (simp add: defs)
        show "[bp, xb] \<noteq> []" by simp
        show "seg (mem st) xn post1 (eptr st + 8)" using n(3) by (simp add: defs)
        show "post1 \<noteq> [] \<longrightarrow> \<not> is_free (mem st) (hd post1)" using n(5) nf by (simp add: defs)
        show "heap_listp (add_block s3 bp) = heap_listp st" "eptr (add_block s3 bp) = eptr st"
          by (simp_all add: g1 s3_def s2_def)
        show "roots_aligned (add_block s3 bp)" using fin(7) .
        show "frame (mem st) (mem (add_block s3 bp)) (unat bp - 8) (unat xn - 8)"
          using fin(1) by (simp add: defs)
        show "link_mono (mem st) (mem (add_block s3 bp))" using fin(2) by (simp add: defs)
        show "GET_SIZE (mem (add_block s3 bp)) (HDRP bp) = ucast (xn - bp)" using fin(3) .
        show "is_free (mem (add_block s3 bp)) bp" "HEF (mem (add_block s3 bp)) bp"
          "links_aligned (mem (add_block s3 bp)) bp" using fin(4,5,6) .
      qed
      then have res: "?this" .
      have e3: "s3 = set_size (delete_block (set_free st bp) xb) bp (xn - bp)"
        by (simp add: s1_def s2_def s3_def)
      show ?thesis
        apply (rule exI[where x = "pre0"])
        apply (rule exI[where x = "[bp, xb]"])
        apply (rule exI[where x = "post1"])
        apply (rule exI[where x = "xn - bp"])
        using res fr co fin(4,8) d0 n(1) nf e3 nxb by (simp add: m_def)
    qed
  next
    case pT: True
    note pf = prev_free[OF pT]
    have la1P: "links_aligned (mem s1) P" using pf by (simp add: m1_def)
    have nbP: "\<not> is_free (mem st) (last pre1)" using pf by (simp add: m_def)
    have pre1ne: "pre1 \<noteq> []" using pf by simp
    have hb1: "heap_blocks (mem st) (eptr st + 8) (heap_listp st) = Some (pre1 @ P # bp # post0)"
      using hb0 d1 by simp
    have sPb: "seg m P [P, bp] xb" using sP sb uxb uP by simp
    show ?thesis
    proof (cases "post0 \<noteq> [] \<and> is_free m (hd post0)")
      case nF: False
      \<comment> \<open>case 3: the previous block is free\<close>
      have na0: "GET_ALLOC m1 (HDRP xb) \<noteq> 0"
      proof (cases "post0 = []")
        case True then show ?thesis by (rule last_block)
      next
        case False
        then show ?thesis using next_block[OF False] nF by auto
      qed
      define s2 where "s2 = delete_block s1 P"
      note d2 = delete_free_block[OF la1P Pal ro1, folded s2_def]
      have te2: "same_tags m1 (mem s2)" and lm2: "link_mono m1 (mem s2)" and ro2: "roots_aligned s2"
        using d2 by (simp_all add: m1_def)
      have szP2: "(ucast (GET_SIZE (mem s2) (HDRP P)) :: 64 word) = bp - P"
        using same_tags_SIZE[OF te2 al8_HDRP[OF Pal]] pf szP by simp
      have tot: "xb - bp + (bp - P) = xb - P" by simp
      define s3 where "s3 = set_size s2 P (xb - P)"
      have co: "coalesce s1 bp = (P, add_block s3 P)"
        using prev1 nxt1 pa_iff pT na0 szB szP2 tot
        by (simp add: coalesce_def Let_def m1_def[symmetric] s2_def[symmetric] s3_def)
      have b16: "unat P + 16 \<le> unat xb" using uxb uP P16 by simp
      have b32: "unat xb - unat P < 2 ^ 32" using xbe span hP by simp
      note ss = after_set_size[OF Pal xbal P8 b16 b32, of s2, folded s3_def]
      have fr3: "frame m (mem s3) (unat P - 8) (unat xb - 8)"
        using frame_trans[OF frame_widen[OF fr1, of "unat P - 8" "unat xb - 8"]
            frame_trans[OF frame_same_tags[OF te2] ss(1)]] uP by simp
      have lm3: "link_mono m (mem s3)"
        using link_mono_trans[OF lm1 link_mono_trans[OF lm2 set_size_link_mono[OF Pal, of s2]]]
        by (simp add: s3_def)
      have ro3: "roots_aligned s3" using ro2 by (simp add: roots_aligned_def s3_def)
      note fin = after_add_block[OF Pal ro3 fr3 lm3 ss(2,3,4)]
      have "layout_ok (add_block s3 P)
            \<and> heap_blocks (mem (add_block s3 P)) (eptr (add_block s3 P) + 8)
                  (heap_listp (add_block s3 P)) = Some (pre1 @ P # post0)
            \<and> no_adjacent_free (mem (add_block s3 P)) (pre1 @ P # post0)
            \<and> (\<forall>b \<in> set (pre1 @ post0). GET (mem (add_block s3 P)) (HDRP b) = GET (mem st) (HDRP b))"
      proof (rule layout_after_merge[OF c _ _ _ _ _ pre1ne nbP, where mid = "[P, bp]" and post = post0
            and M = P and xe = xb])
        show "heap_blocks (mem st) (eptr st + 8) (heap_listp st) = Some (pre1 @ [P, bp] @ post0)"
          using hb1 by simp
        show "seg (mem st) (heap_listp st) pre1 P" using sp1 by (simp add: defs)
        show "seg (mem st) P [P, bp] xb" using sPb by (simp add: defs)
        show "[P, bp] \<noteq> []" by simp
        show "seg (mem st) xb post0 (eptr st + 8)" using spost by (simp add: defs)
        show "post0 \<noteq> [] \<longrightarrow> \<not> is_free (mem st) (hd post0)" using nF by (auto simp: defs)
        show "heap_listp (add_block s3 P) = heap_listp st" "eptr (add_block s3 P) = eptr st"
          by (simp_all add: g1 s3_def s2_def)
        show "roots_aligned (add_block s3 P)" using fin(7) .
        show "frame (mem st) (mem (add_block s3 P)) (unat P - 8) (unat xb - 8)"
          using fin(1) by (simp add: defs)
        show "link_mono (mem st) (mem (add_block s3 P))" using fin(2) by (simp add: defs)
        show "GET_SIZE (mem (add_block s3 P)) (HDRP P) = ucast (xb - P)" using fin(3) .
        show "is_free (mem (add_block s3 P)) P" "HEF (mem (add_block s3 P)) P"
          "links_aligned (mem (add_block s3 P)) P" using fin(4,5,6) .
      qed
      then have res: "?this" .
      have e3: "s3 = set_size (delete_block (set_free st bp) P) P (xb - P)"
        by (simp add: s1_def s2_def s3_def)
      show ?thesis
        apply (rule exI[where x = "pre1"])
        apply (rule exI[where x = "[P, bp]"])
        apply (rule exI[where x = "post0"])
        apply (rule exI[where x = "xb - P"])
        using res fr co fin(4,8) d0 d1 pT e3 nPb by (simp add: m_def)
    next
      case nT: True
      \<comment> \<open>case 4: both neighbours are free\<close>
      obtain post1 xn where n: "post0 = xb # post1" "seg m xb [xb] xn" "seg m xn post1 e"
        "GET_ALLOC m1 (HDRP xb) = 0 \<longleftrightarrow> is_free m xb"
        "is_free m xb \<longrightarrow> links_aligned m1 xb \<and> (post1 \<noteq> [] \<longrightarrow> \<not> is_free m (hd post1))"
        "GET_SIZE m1 (HDRP xb) = GET_SIZE m (HDRP xb)"
        "(ucast (GET_SIZE m (HDRP xb)) :: 64 word) = xn - xb"
        "BPALIGNED xn" "unat xb + 16 \<le> unat xn" "unat xn \<le> unat e"
        using next_block nT by blast
      have nf: "is_free m xb" using nT n(1) by simp
      define s2 where "s2 = delete_block s1 xb"
      have la1: "links_aligned (mem s1) xb" using n(5) nf by (simp add: m1_def)
      note d2 = delete_free_block[OF la1 xbal ro1, folded s2_def]
      have te2: "same_tags m1 (mem s2)" and lm2: "link_mono m1 (mem s2)" and ro2: "roots_aligned s2"
        using d2 by (simp_all add: m1_def)
      have la2P: "links_aligned (mem s2) P"
        using links_aligned_mono[OF lm2 Pal same_tags_PREV_PTR[OF te2 Pal]] pf by simp
      define s2' where "s2' = delete_block s2 P"
      note d2' = delete_free_block[OF la2P Pal ro2, folded s2'_def]
      have te2': "same_tags m1 (mem s2')"
        using same_tags_trans[OF te2 d2'(1)] .
      have lm2': "link_mono m1 (mem s2')" using link_mono_trans[OF lm2 d2'(2)] .
      have szP2: "GET_SIZE (mem s2') (HDRP P) = GET_SIZE m (HDRP P)"
        using same_tags_SIZE[OF te2' al8_HDRP[OF Pal]] pf by simp
      have szN2: "GET_SIZE (mem s2') (HDRP xb) = GET_SIZE m (HDRP xb)"
        using same_tags_SIZE[OF te2' al8_HDRP[OF xbal]] n(6) by simp
      have uxn: "unat xn = unat xb + blk_size m xb"
        using n(2) unat_NEXT_BLKP[of xb m xn] by simp
      have "unat (GET_SIZE m (HDRP P)) + unat (GET_SIZE m (HDRP xb)) < 2 ^ 32"
        using uP uxn uxb n(10) span hP by (simp add: blk_size_def)
      then have "(ucast (GET_SIZE m (HDRP P) + GET_SIZE m (HDRP xb)) :: 64 word)
                 = ucast (GET_SIZE m (HDRP P)) + ucast (GET_SIZE m (HDRP xb))"
        by (simp add: word_unat_eq_iff unat_word_ariths unsigned_ucast_eq take_bit_nat_eq_self)
      then have szPN: "(ucast (GET_SIZE (mem s2') (HDRP P) + GET_SIZE (mem s2') (HDRP xb)) :: 64 word)
                 = (bp - P) + (xn - xb)"
        using szP2 szN2 szP n(7) by simp
      have tot: "xb - bp + ((bp - P) + (xn - xb)) = xn - P" by simp
      define s3 where "s3 = set_size s2' P (xn - P)"
      have co: "coalesce s1 bp = (P, add_block s3 P)"
        using prev1 nxt1 pa_iff pT n(4) nf szB szPN tot
        by (simp add: coalesce_def Let_def m1_def[symmetric] s2_def[symmetric] s2'_def[symmetric] s3_def)
      have b16: "unat P + 16 \<le> unat xn" using n(9) uxb uP by simp
      have b32: "unat xn - unat P < 2 ^ 32" using n(10) span hP by simp
      note ss = after_set_size[OF Pal n(8) P8 b16 b32, of s2', folded s3_def]
      have fr3: "frame m (mem s3) (unat P - 8) (unat xn - 8)"
        using frame_trans[OF frame_widen[OF fr1, of "unat P - 8" "unat xn - 8"]
            frame_trans[OF frame_same_tags[OF te2'] ss(1)]] uP n(9) by simp
      have lm3: "link_mono m (mem s3)"
        using link_mono_trans[OF lm1 link_mono_trans[OF lm2' set_size_link_mono[OF Pal, of s2']]]
        by (simp add: s3_def)
      have ro3: "roots_aligned s3" using d2'(3) by (simp add: roots_aligned_def s3_def)
      note fin = after_add_block[OF Pal ro3 fr3 lm3 ss(2,3,4)]
      have "layout_ok (add_block s3 P)
            \<and> heap_blocks (mem (add_block s3 P)) (eptr (add_block s3 P) + 8)
                  (heap_listp (add_block s3 P)) = Some (pre1 @ P # post1)
            \<and> no_adjacent_free (mem (add_block s3 P)) (pre1 @ P # post1)
            \<and> (\<forall>b \<in> set (pre1 @ post1). GET (mem (add_block s3 P)) (HDRP b) = GET (mem st) (HDRP b))"
      proof (rule layout_after_merge[OF c _ _ _ _ _ pre1ne nbP, where mid = "[P, bp, xb]" and post = post1
            and M = P and xe = xn])
        show "heap_blocks (mem st) (eptr st + 8) (heap_listp st) = Some (pre1 @ [P, bp, xb] @ post1)"
          using hb1 n(1) by simp
        show "seg (mem st) (heap_listp st) pre1 P" using sp1 by (simp add: defs)
        show "seg (mem st) P [P, bp, xb] xn" using sP sb n(2) uxb uP n(9) by (simp add: defs)
        show "[P, bp, xb] \<noteq> []" by simp
        show "seg (mem st) xn post1 (eptr st + 8)" using n(3) by (simp add: defs)
        show "post1 \<noteq> [] \<longrightarrow> \<not> is_free (mem st) (hd post1)" using n(5) nf by (simp add: defs)
        show "heap_listp (add_block s3 P) = heap_listp st" "eptr (add_block s3 P) = eptr st"
          by (simp_all add: g1 s3_def s2_def s2'_def)
        show "roots_aligned (add_block s3 P)" using fin(7) .
        show "frame (mem st) (mem (add_block s3 P)) (unat P - 8) (unat xn - 8)"
          using fin(1) by (simp add: defs)
        show "link_mono (mem st) (mem (add_block s3 P))" using fin(2) by (simp add: defs)
        show "GET_SIZE (mem (add_block s3 P)) (HDRP P) = ucast (xn - P)" using fin(3) .
        show "is_free (mem (add_block s3 P)) P" "HEF (mem (add_block s3 P)) P"
          "links_aligned (mem (add_block s3 P)) P" using fin(4,5,6) .
      qed
      then have res: "?this" .
      have e3: "s3 = set_size (delete_block (delete_block (set_free st bp) xb) P) P (xn - P)"
        by (simp add: s1_def s2_def s2'_def s3_def)
      show ?thesis
        apply (rule exI[where x = "pre1"])
        apply (rule exI[where x = "[P, bp, xb]"])
        apply (rule exI[where x = "post1"])
        apply (rule exI[where x = "xn - P"])
        using res fr co fin(4,8) d0 d1 n(1) nf pT e3 nPb nxb by (simp add: m_def)
    qed
  qed
qed


subsection \<open>Scenario B\<close>

lemma scenario_B_state:
  "(case malloc heap0 16 of
      None \<Rightarrow> None
    | Some (a, s1) \<Rightarrow>
        (case malloc s1 16 of None \<Rightarrow> None | Some (b, s2) \<Rightarrow> Some (a, b, free s2 a)))
   = Some (4120, 4152, heapAB)"
  by (simp add: evals2 heap0_def heapAB_def cong: let_weak_cong)

lemmas walk = heap_blocks.simps blk_size_def is_free_def links_aligned_def layout_ok_def
  roots_aligned_def BPALIGNED_def HEF_def aligned32_def

lemma heapAB_blocks:
  "heap_blocks (mem heapAB) (eptr heapAB + 8) (heap_listp heapAB) = Some [4104, 4120, 4152, 4184]"
  by (simp add: evals walk heapAB_def)

lemmas chains = consistent_def bucket_ok_def bucket_def cls_def chain_of.simps dls.simps

lemma heapAB_buckets:
  "bucket heapAB [4104, 4120, 4152, 4184] 6 = [4120]"
  "bucket heapAB [4104, 4120, 4152, 4184] 8 = [4184]"
  by (simp_all add: evals chains heapAB_def)

lemma upto_19:
  "[0..19] = [0, 1, 2, 3, 4, 5, 6, 7, 8, 9, 10, 11, 12, 13, 14, 15, 16, 17, 18, 19 :: int]"
  by (simp add: upto_rec1)

lemma heapAB_consistent: "consistent heapAB"
  by (simp add: evals walk chains upto_19 heapAB_def)


subsection \<open>What calloc zeroes\<close>

text \<open>
  \<open>memset\<close> gets the requested byte count, not the payload size: on the heap
  with a dirty byte \<open>calloc 1 1\<close> returns a block with 8 payload bytes and
  payload byte 4 keeps its old value.
\<close>

lemma calloc_zeroes_request_only:
  "(case malloc heap0_dirty 1 of
      None \<Rightarrow> False
    | Some (bp, st) \<Rightarrow>
        bp = 4120 \<and> payload (mem st) bp = 8 \<and>
        (case calloc heap0_dirty 1 1 of
           Some (Inr (bp', st')) \<Rightarrow> bp' = bp \<and> mem st' (bp + 4) = 0xFF
         | _ \<Rightarrow> False))"
  by (simp add: evals2 heap0_def heap0_dirty_def GET_upd_other PUT_byte_other
           cong: let_weak_cong)

section \<open>The claims\<close>

text \<open>
  C8. Boundary no-ops on an initialised heap (\<open>heap_listp\<close> is set):
  \<open>malloc 0\<close> returns \<open>NULL\<close> and leaves the whole allocator state as it was,
  and \<open>free NULL\<close> leaves the whole allocator state as it was.
\<close>

theorem boundary_noops:
  "heap_listp st \<noteq> 0 \<Longrightarrow> malloc st 0 = Some (NULL, st) \<and> free st NULL = st"
  by (simp add: malloc_def free_def NULL_def)

theorem boundary_noops_witness:
  "heap_listp heap0 \<noteq> 0 \<and> malloc heap0 0 = Some (NULL, heap0) \<and> free heap0 NULL = heap0"
proof -
  have h: "heap_listp heap0 \<noteq> 0" by (simp add: heap0_def)
  show ?thesis using h boundary_noops [OF h] by simp
qed

text \<open>
  C10. The search on the initialised heap, whose buckets are all empty: the
  outer loop of \<open>search_list\<close> runs while \<open>list < NUM_LISTS + 1\<close> and ends by
  reading \<open>free_lists[20]\<close>, one entry past the array of 20.
\<close>

theorem search_reads_past_free_lists:
  "search_loop heap0 24 (get_list 24) (root heap0 (get_list 24)) = Some (OutOfBounds 20)"
  by (simp add: evals heap0_def cong: let_weak_cong)

text \<open>
  C1. \<open>malloc\<close> of the largest \<open>size_t\<close> on the initialised heap: the rounding
  in \<open>align_size\<close> wraps to 16, and the call returns a block of total size 16,
  whose payload holds 0 bytes.
\<close>

theorem malloc_huge_request_tiny_block:
  "(case malloc heap0 0xFFFFFFFFFFFFFFFF of
      None \<Rightarrow> False
    | Some (bp, st) \<Rightarrow> bp = 4120 \<and> GET_SIZE (mem st) (HDRP bp) = 16 \<and> payload (mem st) bp = 0)"
  by (simp add: evals heap0_def payload_def cong: let_weak_cong)

text \<open>
  C5. Neither overflow is checked. \<open>calloc\<close> of \<open>2^63 + 1\<close> members of 2 bytes
  (the product wraps to 2) and \<open>malloc\<close> of \<open>2^64 - 8\<close> bytes (the rounding wraps
  to 8) both return the non-null address 4120 on the initialised heap.
\<close>

theorem overflow_not_checked:
  "(case calloc heap0 0x8000000000000001 2 of
      Some (Inr (bp, st)) \<Rightarrow> bp = 4120
    | _ \<Rightarrow> False)
   \<and> (case malloc heap0 0xFFFFFFFFFFFFFFF8 of
        None \<Rightarrow> False
      | Some (bp, st) \<Rightarrow> bp = 4120 \<and> GET_SIZE (mem st) (HDRP bp) = 8)"
  by (simp add: evals2 heap0_def cong: let_weak_cong)

text \<open>
  C2. A block with 24 payload bytes whose first word is \<open>0xABABABAB\<close>, then
  \<open>realloc\<close> to \<open>2^64 - 1\<close> bytes: the adjusted size wraps to 16, the call takes
  the shrink path and returns the same non-null address, and the first word of
  the payload now holds the footer tag 17.
\<close>

theorem realloc_larger_loses_bytes:
  "(case malloc heap0 24 of
      None \<Rightarrow> False
    | Some (p, st) \<Rightarrow>
        p = 4120 \<and> payload (mem st) p = 24 \<and>
        (case realloc (st\<lparr>mem := PUT (mem st) p 0xABABABAB\<rparr>) p 0xFFFFFFFFFFFFFFFF of
           Some (Inr (q, st')) \<Rightarrow> q = p \<and> GET (mem st') q = 17
         | _ \<Rightarrow> False))"
  by (simp add: evals2 heap0_def cong: let_weak_cong)

text \<open>
  C7. On the heap \<open>two_heads\<close> bucket 5 has two free blocks whose back link
  marks the list end and two whose forward link marks the list end, and the
  checker returns no flag at all: the counters are compared before they are
  incremented (\<open>num_head[list_num]++ > 1\<close>), so the flag needs a third head.
\<close>

theorem checker_misses_second_head:
  "GET_ALLOC (mem two_heads) (HDRP 4120) = 0 \<and> GET_ALLOC (mem two_heads) (HDRP 4168) = 0
   \<and> get_list (ucast (GET_SIZE (mem two_heads) (HDRP 4120))) = 5
   \<and> get_list (ucast (GET_SIZE (mem two_heads) (HDRP 4168))) = 5
   \<and> GET_PREV_FREE (mem two_heads) 4120 = LIST_END
   \<and> GET_PREV_FREE (mem two_heads) 4168 = LIST_END
   \<and> GET_NEXT_FREE (mem two_heads) 4120 = LIST_END
   \<and> GET_NEXT_FREE (mem two_heads) 4168 = LIST_END
   \<and> mm_checkheap two_heads = Some 0"
  by (simp add: evals2 chk two_heads_def cong: let_weak_cong)

theorem checker_misses_second_head_witness:
  "mm_checkheap two_heads = Some 0"
  using checker_misses_second_head by simp

text \<open>
  C4. In a region that cannot grow by a chunk \<open>malloc 1\<close> fails and returns
  \<open>NULL\<close>. \<open>calloc 1 1\<close> does not test that result: it hands it to \<open>memset\<close>
  with the byte count 1, a store through the null pointer.
\<close>

theorem calloc_stores_through_null:
  "(case malloc heap0_full (1 * 1) of None \<Rightarrow> False | Some (bp, st) \<Rightarrow> bp = NULL)
   \<and> calloc heap0_full 1 1 = Some (Inl NullAccess)"
  by (simp add: evals2 heap0_def heap0_full_def cong: let_weak_cong)

text \<open>
  C6, as stated, fails at the requested size 0: its adjusted value is 24, at
  most the size of any block, and \<open>realloc\<close> frees the block and returns
  \<open>NULL\<close>, not the address it was given.
\<close>

theorem realloc_zero_returns_null:
  "(case malloc heap0 24 of
      None \<Rightarrow> False
    | Some (p, st) \<Rightarrow>
        p = 4120 \<and> GET_ALLOC (mem st) (HDRP p) = 1
        \<and> align_size 0 \<le> ucast (GET_SIZE (mem st) (HDRP p))
        \<and> (case realloc st p 0 of
             Some (Inr (q, st')) \<Rightarrow> q = NULL
           | _ \<Rightarrow> False))"
  by (simp add: evals2 heap0_def cong: let_weak_cong)

text \<open>
  C6, amended. Let \<open>ptr\<close> be a non-null, 8-aligned block pointer that is no
  bucket head, in a state whose bucket heads are 8-aligned, and \<open>sz\<close> a
  requested size other than 0 whose rounding does not wrap and whose adjusted
  value is at most the size of the block. Then \<open>realloc\<close> returns \<open>ptr\<close>; the
  block at \<open>ptr\<close> is allocated, its payload holds the requested bytes, and
  \<open>ptr\<close> is still no bucket head. When the tail is at least \<open>MIN_SIZE\<close>, the
  block at \<open>ptr\<close> has the adjusted size in header and footer and is followed
  by the tail, a free block with its size in header and footer that is the
  head of its bucket; otherwise the block keeps its size.
\<close>

theorem realloc_shrink_in_place:
  assumes nn: "ptr \<noteq> NULL" and sz0: "sz \<noteq> 0" and nowrap: "unat sz + 23 < 2 ^ 64"
    and fits: "align_size sz \<le> ucast (GET_SIZE (mem st) (HDRP ptr))"
    and al: "BPALIGNED ptr" and ro: "roots_aligned st" and nl: "ptr \<notin> set (free_lists st)"
  shows "\<exists>st'. realloc st ptr sz = Some (Inr (ptr, st'))
           \<and> GET_ALLOC (mem st') (HDRP ptr) = 1
           \<and> unat sz \<le> unat (payload (mem st') ptr)
           \<and> ptr \<notin> set (free_lists st')
           \<and> (if align_size sz + MIN_SIZE \<le> ucast (GET_SIZE (mem st) (HDRP ptr))
               then GET_SIZE (mem st') (HDRP ptr) = ucast (align_size sz)
                    \<and> HEF (mem st') ptr
                    \<and> NEXT_BLKP (mem st') ptr = ptr + align_size sz
                    \<and> GET_SIZE (mem st') (HDRP (ptr + align_size sz))
                        = ucast (ucast (GET_SIZE (mem st) (HDRP ptr)) - align_size sz)
                    \<and> GET_ALLOC (mem st') (HDRP (ptr + align_size sz)) = 0
                    \<and> HEF (mem st') (ptr + align_size sz)
                    \<and> root st' (get_list (ucast (GET_SIZE (mem st) (HDRP ptr)) - align_size sz))
                        = ptr + align_size sz
               else GET_SIZE (mem st') (HDRP ptr) = GET_SIZE (mem st) (HDRP ptr)
                    \<and> GET (mem st') (FTRP (mem st') ptr) = GET (mem st) (FTRP (mem st) ptr) OR 1)"
proof -
  define newsize where "newsize = align_size sz"
  define oldsize where "oldsize = (ucast (GET_SIZE (mem st) (HDRP ptr)) :: 64 word)"
  define st' where "st' = snd (shrink_in_place st ptr newsize)"
  define tail where "tail = oldsize - newsize"
  define sb where "sb = ptr + newsize"
  have nz: "ptr \<noteq> 0" using nn by (simp add: NULL_def)
  have re: "realloc st ptr sz = Some (Inr (ptr, st'))"
  proof -
    have "realloc st ptr sz = Some (Inr (shrink_in_place st ptr newsize))"
      using nn sz0 fits by (simp add: realloc_def NULL_def Let_def newsize_def)
    moreover have "fst (shrink_in_place st ptr newsize) = ptr"
      by (simp add: shrink_in_place_def split_def Let_def)
    ultimately show ?thesis by (simp add: st'_def prod_eq_iff)
  qed
  have nal: "BPALIGNED newsize" unfolding newsize_def by (rule al8_align_size)
  have n24: "24 \<le> unat newsize" and nsz: "unat sz + 16 \<le> unat newsize"
    unfolding newsize_def using align_size_bounds[OF nowrap] by simp_all
  have nnz: "newsize \<noteq> 0" using n24 by auto
  have le: "newsize \<le> oldsize" using fits by (simp add: newsize_def oldsize_def)
  have nle: "unat newsize \<le> unat oldsize" using le by (simp add: word_le_nat_alt)
  have o32: "unat oldsize < 2 ^ 32" unfolding oldsize_def by (rule unat_ucast32)
  have n32: "unat newsize < 2 ^ 32" using nle o32 by simp
  have h: "BPALIGNED (HDRP ptr)" using al by (simp add: al8_HDRP)
  have a32: "aligned32 (ucast newsize)" using nal by (rule aligned32_ucast)
  have body: "GET_ALLOC (mem st') (HDRP ptr) = 1
           \<and> unat sz \<le> unat (payload (mem st') ptr)
           \<and> ptr \<notin> set (free_lists st')
           \<and> (if newsize + MIN_SIZE \<le> oldsize
               then GET_SIZE (mem st') (HDRP ptr) = ucast newsize
                    \<and> HEF (mem st') ptr
                    \<and> NEXT_BLKP (mem st') ptr = sb
                    \<and> GET_SIZE (mem st') (HDRP sb) = ucast tail
                    \<and> GET_ALLOC (mem st') (HDRP sb) = 0
                    \<and> HEF (mem st') sb
                    \<and> root st' (get_list tail) = sb
               else GET_SIZE (mem st') (HDRP ptr) = GET_SIZE (mem st) (HDRP ptr)
                    \<and> GET (mem st') (FTRP (mem st') ptr) = GET (mem st) (FTRP (mem st) ptr) OR 1)"
  proof (cases "newsize + MIN_SIZE \<le> oldsize")
    case True
    have t: "GET (mem st') (HDRP sb) = ucast tail
           \<and> GET (mem st') (FTRP (mem st') sb) = ucast tail
           \<and> root st' (get_list tail) = sb
           \<and> GET (mem st') (HDRP ptr) = ucast newsize OR 1
           \<and> GET (mem st') (ptr + newsize - 16) = ucast newsize OR 1
           \<and> (\<exists>v. free_lists st' = (free_lists st)[nat (get_list oldsize) := v, nat (get_list tail) := sb]
                  \<and> v \<noteq> ptr)"
      using shrink_tail[OF al ro nal nz nnz] True le
      by (simp add: oldsize_def st'_def tail_def sb_def)
    then obtain v where v: "free_lists st' = (free_lists st)[nat (get_list oldsize) := v, nat (get_list tail) := sb]"
        "v \<noteq> ptr" by blast
    have sbp: "sb \<noteq> ptr" using nnz by (simp add: sb_def)
    have "set (free_lists st') \<subseteq> insert sb (insert v (set (free_lists st)))"
      unfolding v(1)
      by (rule subset_trans[OF set_update_subset_insert]) (use set_update_subset_insert in fastforce)
    then have notin: "ptr \<notin> set (free_lists st')" using nl v(2) sbp by auto
    have "BPALIGNED tail"
      unfolding tail_def oldsize_def using al8_ucast_size nal by (rule al8_sub)
    then have t32: "aligned32 (ucast tail)" by (rule aligned32_ucast)
    then have a1: "(ucast tail :: 32 word) AND 1 = 0" by (rule aligned32_and1)
    have gs: "GET_SIZE (mem st') (HDRP ptr) = ucast newsize"
      using t a32 by (simp add: GET_SIZE_def size_or1' aligned32_size')
    then have ft: "FTRP (mem st') ptr = ptr + newsize - 16"
      using n32 by (simp add: FTRP_def WSIZE_def ucast_ucast_small)
    have nb: "NEXT_BLKP (mem st') ptr = sb"
      using gs n32 by (simp add: NEXT_BLKP_def sb_def ucast_ucast_small)
    have hef: "HEF (mem st') ptr" using t by (simp add: HEF_def ft)
    have pl: "unat (payload (mem st') ptr) = unat newsize - 16"
      using n24 by (simp add: payload_def ft unat_sub word_le_nat_alt)
    have ga: "GET_ALLOC (mem st') (HDRP ptr) = 1"
      using t by (simp add: GET_ALLOC_def word_bw_assocs)
    have res: "GET_SIZE (mem st') (HDRP sb) = ucast tail
         \<and> GET_ALLOC (mem st') (HDRP sb) = 0
         \<and> HEF (mem st') sb
         \<and> root st' (get_list tail) = sb"
      using t t32 a1 by (simp add: GET_SIZE_def GET_ALLOC_def HEF_def aligned32_size')
    show ?thesis using True res gs hef nb ga notin pl nsz by simp
  next
    case False
    have w: "\<And>q. BPALIGNED q \<Longrightarrow> GET (mem st') q
          = (if q = HDRP ptr \<or> q = FTRP (mem st) ptr then GET (mem st) q OR 1 else GET (mem st) q)"
      unfolding st'_def using al ro nz False[unfolded oldsize_def] by (rule shrink_whole(1))
    obtain v where v: "free_lists st' = (free_lists st)[nat (get_list oldsize) := v]" "v \<noteq> ptr"
      using shrink_whole(2)[OF al ro nz False[unfolded oldsize_def] al]
      unfolding st'_def oldsize_def by blast
    have "set (free_lists st') \<subseteq> insert v (set (free_lists st))"
      unfolding v(1) by (rule set_update_subset_insert)
    then have notin: "ptr \<notin> set (free_lists st')" using nl v(2) by auto
    have gh: "GET (mem st') (HDRP ptr) = GET (mem st) (HDRP ptr) OR 1" using w[OF h] by simp
    then have gs: "GET_SIZE (mem st') (HDRP ptr) = GET_SIZE (mem st) (HDRP ptr)"
      by (simp add: GET_SIZE_def size_or1')
    then have ft: "FTRP (mem st') ptr = FTRP (mem st) ptr" by (simp add: FTRP_def)
    have gf: "GET (mem st') (FTRP (mem st') ptr) = GET (mem st) (FTRP (mem st) ptr) OR 1"
      using w[OF al8_FTRP[OF al, of "mem st"]] by (simp add: ft)
    have ga: "GET_ALLOC (mem st') (HDRP ptr) = 1"
      using gh by (simp add: GET_ALLOC_def word_bw_assocs)
    have "payload (mem st') ptr = oldsize - 16"
      using gs by (simp add: payload_def FTRP_def WSIZE_def oldsize_def)
    then have pl: "unat (payload (mem st') ptr) = unat oldsize - 16"
      using n24 nle by (simp add: unat_sub word_le_nat_alt)
    show ?thesis using False gs gf ga notin pl nsz nle by simp
  qed
  show ?thesis
    apply (rule exI[where x = st'])
    using re body [unfolded tail_def sb_def oldsize_def newsize_def]
    by (simp add: newsize_def oldsize_def)
qed

text \<open>
  The witness is scenario C of the spec: \<open>malloc 1000\<close> returns 4120, and
  \<open>realloc\<close> of that block to 10 bytes keeps the address, shrinks the block to
  32 bytes and leaves a free block of 984 bytes at 4152.
\<close>

lemma malloc_1000: "malloc heap0 1000 = Some (4120, heap1000)"
  by (simp add: evals heap0_def heap1000_def cong: let_weak_cong)

theorem realloc_shrink_in_place_witness:
  "realloc heap1000 4120 10 \<noteq> None
   \<and> (\<exists>st'. realloc heap1000 4120 10 = Some (Inr (4120, st'))
        \<and> GET_ALLOC (mem st') (HDRP 4120) = 1
        \<and> GET_SIZE (mem st') (HDRP 4120) = 32
        \<and> HEF (mem st') 4120
        \<and> GET_SIZE (mem st') (HDRP 4152) = 984
        \<and> GET_ALLOC (mem st') (HDRP 4152) = 0
        \<and> HEF (mem st') 4152
        \<and> root st' (get_list 984) = 4152
        \<and> 4120 \<notin> set (free_lists st'))"
proof -
  have a: "align_size 10 = 32" by (simp add: align_size_def DSIZE_def MIN_SIZE_def)
  have g: "(ucast (GET_SIZE (mem heap1000) (HDRP 4120)) :: 64 word) = 1016"
    by (simp add: evals heap1000_def)
  have h1: "(4120 :: 64 word) \<noteq> NULL" by (simp add: NULL_def)
  have h2: "(10 :: 64 word) \<noteq> 0" by simp
  have h3: "unat (10 :: 64 word) + 23 < 2 ^ 64" by simp
  have h4: "align_size 10 \<le> ucast (GET_SIZE (mem heap1000) (HDRP 4120))"
    by (simp add: a g)
  have h5: "BPALIGNED 4120" by (simp add: BPALIGNED_def)
  have h6: "roots_aligned heap1000"
    by (simp add: roots_aligned_def heap1000_def BPALIGNED_def)
  have h7: "4120 \<notin> set (free_lists heap1000)" by (simp add: heap1000_def)
  have r: "(32 :: 64 word) + MIN_SIZE \<le> 1016" by (simp add: MIN_SIZE_def)
  obtain st' where s: "realloc heap1000 4120 10 = Some (Inr (4120, st'))"
      "GET_ALLOC (mem st') (HDRP 4120) = 1" "4120 \<notin> set (free_lists st')"
      "GET_SIZE (mem st') (HDRP 4120) = 32 \<and> HEF (mem st') 4120
        \<and> GET_SIZE (mem st') (HDRP 4152) = 984 \<and> GET_ALLOC (mem st') (HDRP 4152) = 0
        \<and> HEF (mem st') 4152 \<and> root st' (get_list 984) = 4152"
    using realloc_shrink_in_place [OF h1 h2 h3 h4 h5 h6 h7] r by (auto simp: a g)
  then show ?thesis by auto
qed

text \<open>
  C3. In a consistent heap, \<open>free\<close> of an allocated block of the walk (any
  block after the prologue) replaces the run \<open>mid\<close>, made of that block and
  its free physical neighbours, by one free block. Every bucket afterwards is
  its chain from before without the blocks of \<open>mid\<close>, and the bucket of the
  merged block has that block in front: the neighbours have left their
  buckets and the merged block has been inserted at the head of its own. In
  the heap that results no two neighbouring blocks between prologue and
  epilogue are both free, and the heap is consistent again.
\<close>

theorem free_coalesces:
  assumes c: "consistent st"
    and hb: "heap_blocks (mem st) (eptr st + 8) (heap_listp st) = Some bs"
    and bp: "bp \<in> set (tl bs)" and alloc: "\<not> is_free (mem st) bp"
  shows "\<exists>pre mid post.
           bs = pre @ mid @ post \<and> bp \<in> set mid
           \<and> (\<forall>b \<in> set mid. b \<noteq> bp \<longrightarrow> is_free (mem st) b)
           \<and> heap_blocks (mem (free st bp)) (eptr (free st bp) + 8) (heap_listp (free st bp))
               = Some (pre @ hd mid # post)
           \<and> is_free (mem (free st bp)) (hd mid)
           \<and> no_adjacent_free (mem (free st bp)) (pre @ hd mid # post)
           \<and> (\<forall>i \<in> {0..19}. bucket (free st bp) (pre @ hd mid # post) i
                 = (if i = cls (mem (free st bp)) (hd mid) then [hd mid] else [])
                   @ filter (\<lambda>b. b \<notin> set mid) (bucket st bs i))
           \<and> consistent (free st bp)"
proof -
  have l: "layout_ok st" using c by (simp add: consistent_def)
  obtain pre mid post T where F:
    "bs = pre @ mid @ post" "bp \<in> set mid"
    "\<forall>b \<in> set mid. b \<noteq> bp \<longrightarrow> is_free (mem st) b"
    "heap_blocks (mem (free st bp)) (eptr (free st bp) + 8) (heap_listp (free st bp))
       = Some (pre @ hd mid # post)"
    "is_free (mem (free st bp)) (hd mid)"
    "no_adjacent_free (mem (free st bp)) (pre @ hd mid # post)"
    "layout_ok (free st bp)"
    "\<forall>b \<in> set (pre @ post). GET (mem (free st bp)) (HDRP b) = GET (mem st) (HDRP b)"
    "free st bp
       = add_block (if mid = [bp] then set_free st bp
                    else set_size (foldl delete_block (set_free st bp)
                                     (filter (\<lambda>x. x \<noteq> bp) (rev mid))) (hd mid) T)
           (hd mid)"
    using free_layout[OF l hb bp alloc] by blast
  define M where "M = hd mid"
  define st' where "st' = free st bp"
  define m where "m = mem st"
  define m' where "m' = mem st'"
  define bs' where "bs' = pre @ M # post"
  define A where "A = filter (\<lambda>x. x \<noteq> bp) (rev mid)"
  define LS0 where "LS0 = bucket st bs"
  define LSA where "LSA = (\<lambda>i. filter (\<lambda>b. b \<notin> set A) (LS0 i))"
  define s1 where "s1 = set_free st bp"
  define sd where "sd = foldl delete_block s1 A"
  define s3 where "s3 = (if mid = [bp] then s1 else set_size sd M T)"
  define h where "h = heap_listp st"
  define e where "e = eptr st + 8"
  define lo where "lo = unat h"
  define hi where "hi = unat e"
  have eq: "st' = add_block s3 M"
    using F(9) by (simp add: st'_def s3_def sd_def s1_def A_def M_def)
  have g': "heap_listp st' = h" "eptr st' + 8 = e"
    by (simp_all add: eq s3_def sd_def s1_def h_def e_def)
  \<comment> \<open>the two walks\<close>
  have lay: "BPALIGNED h" "8 \<le> unat h" "unat (eptr st) + 8 < 2 ^ 64"
    "unat (eptr st) + 8 - unat h < 2 ^ 31"
    using l by (simp_all add: layout_ok_def h_def)
  have ue: "unat e = unat (eptr st) + 8" using lay(3) by (simp add: e_def unat_word_ariths)
  have span: "unat e - unat h < 2 ^ 31" using lay(4) ue by simp
  have sg: "seg m h bs e" using hb by (simp add: heap_blocks_seg m_def h_def e_def)
  have sg': "seg m' h bs' e"
    using F(4) g' by (simp add: heap_blocks_seg m'_def st'_def[symmetric] bs'_def M_def)
  have n0: "nodes m lo hi (set bs)" unfolding lo_def hi_def using sg lay(1,2) span by (rule seg_nodes)
  have n': "nodes m' lo hi (set bs')" unfolding lo_def hi_def using sg' lay(1,2) span by (rule seg_nodes)
  have dbs: "distinct bs" using sg by (rule seg_distinct)
  have dbs': "distinct bs'" using sg' by (rule seg_distinct)
  have midne: "mid \<noteq> []" using F(2) by auto
  have Mmid: "M \<in> set mid" using midne by (simp add: M_def)
  have dj: "set (pre @ post) \<inter> set mid = {}" using dbs F(1) by auto
  have setA: "set A = set mid - {bp}" by (auto simp: A_def)
  have dA: "distinct A" using dbs F(1) by (simp add: A_def)
  have Afree: "\<forall>x \<in> set A. is_free m x \<and> x \<in> set bs" using setA F(1,3) by (auto simp: m_def)
  have bpin: "bp \<in> set bs" using F(1,2) by simp
  have bal: "BPALIGNED bp" using nodes_range(3)[OF n0 bpin] .
  \<comment> \<open>the buckets before the call\<close>
  have bk0: "buckets st LS0"
    and set0: "\<forall>i. 0 \<le> i \<and> i < 20 \<longrightarrow> set (LS0 i) = {b \<in> set bs. is_free m b \<and> cls m b = i}"
    using consistent_buckets[OF c hb] by (simp_all add: LS0_def m_def)
  have sub0: "\<forall>i. 0 \<le> i \<and> i < 20 \<longrightarrow> set (LS0 i) \<subseteq> set bs" using set0 by auto
  have in0: "\<And>b. b \<in> set bs \<Longrightarrow> is_free m b \<Longrightarrow> b \<in> set (LS0 (cls m b))"
    using set0 cls_range by auto
  have free0: "\<And>i b. 0 \<le> i \<and> i < 20 \<Longrightarrow> b \<in> set (LS0 i) \<Longrightarrow> b \<in> set bs \<and> is_free m b \<and> cls m b = i"
    using set0 by auto
  \<comment> \<open>clearing the allocation bit\<close>
  have sz1: "\<And>q. BPALIGNED q \<Longrightarrow> GET_SIZE (mem s1) q = GET_SIZE m q"
    using set_free_sizes[OF bal] by (simp add: s1_def m_def)
  have n1: "nodes (mem s1) lo hi (set bs)"
    using n0 sz1 nodes_range(3)[OF n0] by (auto intro!: nodes_same_size[OF n0] simp: al8_HDRP)
  have cls1: "\<And>b. b \<in> set bs \<Longrightarrow> cls (mem s1) b = cls m b"
    using sz1 nodes_range(3)[OF n0] by (simp add: cls_def al8_HDRP)
  have sl1: "same_links m (mem s1)" using set_free_same_links[OF bal] by (simp add: s1_def m_def)
  have bk1: "buckets s1 LS0"
  proof (rule buckets_cong[OF bk0])
    show "free_lists s1 = free_lists st" by (simp add: s1_def)
    show "\<forall>i. 0 \<le> i \<and> i < 20 \<longrightarrow> (\<forall>b \<in> set (LS0 i).
        GET_NEXT_FREE (mem s1) b = GET_NEXT_FREE (mem st) b
        \<and> GET_PREV_FREE (mem s1) b = GET_PREV_FREE (mem st) b
        \<and> cls (mem s1) b = cls (mem st) b)"
    proof (intro allI impI ballI)
      fix i :: int and b assume i: "0 \<le> i \<and> i < 20" and b: "b \<in> set (LS0 i)"
      have bb: "b \<in> set bs" using sub0 i b by blast
      have al: "BPALIGNED b" using nodes_range(3)[OF n0 bb] .
      have s: "GET_SIZE (mem s1) (HDRP b) = GET_SIZE m (HDRP b)" using sz1 al by (simp add: al8_HDRP)
      show "GET_NEXT_FREE (mem s1) b = GET_NEXT_FREE (mem st) b
        \<and> GET_PREV_FREE (mem s1) b = GET_PREV_FREE (mem st) b
        \<and> cls (mem s1) b = cls (mem st) b"
        using links_tag_only[OF sl1 al s] cls1[OF bb] by (simp add: m_def)
    qed
  qed
  \<comment> \<open>removing the free neighbours from their buckets\<close>
  have A1: "\<forall>x \<in> set A. x \<in> set (LS0 (cls (mem s1) x))"
    using Afree in0 cls1 by auto
  have bkd: "buckets sd LSA" and ted: "same_tags (mem s1) (mem sd)"
    using foldl_delete_buckets[OF n1 bk1 sub0 dA A1] by (simp_all add: sd_def LSA_def)
  have nd: "nodes (mem sd) lo hi (set bs)" using n1 ted by (rule nodes_same_tags)
  have subA: "\<forall>i. 0 \<le> i \<and> i < 20 \<longrightarrow> set (LSA i) \<subseteq> set bs" using sub0 by (auto simp: LSA_def)
  have rod: "roots_aligned sd" using bkd nd subA by (rule buckets_roots_aligned)
  have inA: "\<And>i b. 0 \<le> i \<and> i < 20 \<Longrightarrow> b \<in> set (LSA i)
      \<Longrightarrow> b \<in> set (pre @ post) \<and> is_free m b \<and> cls m b = i \<and> b \<in> set (LS0 i)"
  proof -
    fix i :: int and b assume i: "0 \<le> i \<and> i < 20" and b: "b \<in> set (LSA i)"
    have b0: "b \<in> set (LS0 i)" "b \<notin> set A" using b by (simp_all add: LSA_def)
    note f = free0[OF i b0(1)]
    have "b \<noteq> bp" using f alloc by (auto simp: m_def)
    then have "b \<notin> set mid" using b0(2) setA by auto
    then show "b \<in> set (pre @ post) \<and> is_free m b \<and> cls m b = i \<and> b \<in> set (LS0 i)"
      using f F(1) b0(1) by auto
  qed
  \<comment> \<open>the new size tag\<close>
  have Mal: "BPALIGNED M" using nodes_range(3)[OF n0] Mmid F(1) by auto
  have fl3: "free_lists s3 = free_lists sd" by (simp add: s3_def sd_def A_def)
  have ro3: "roots_aligned s3" using rod fl3 by (simp add: roots_aligned_def)
  have te34: "same_tags (mem s3) m'"
    unfolding m'_def eq using Mal ro3 by (rule add_block_tageq)
  have te43: "same_tags m' (mem s3)" using te34 by (simp add: same_tags_def)
  have n3: "nodes (mem s3) lo hi (set bs')" using n' te43 by (rule nodes_same_tags)
  have sdA: "mid = [bp] \<Longrightarrow> sd = s1" by (simp add: sd_def A_def)
  have sl3: "same_links (mem sd) (mem s3)"
    using set_size_same_links[OF Mal, of sd T] sdA by (auto simp: s3_def)
  have keep: "\<And>b. b \<in> set (pre @ post) \<Longrightarrow> BPALIGNED b \<and> GET m' (HDRP b) = GET m (HDRP b)
       \<and> GET_SIZE (mem s3) (HDRP b) = GET_SIZE (mem sd) (HDRP b)"
  proof -
    fix b assume b: "b \<in> set (pre @ post)"
    have bb: "b \<in> set bs" using b F(1) by auto
    have al: "BPALIGNED b" using nodes_range(3)[OF n0 bb] .
    have ah: "BPALIGNED (HDRP b)" using al by (rule al8_HDRP)
    have g: "GET m' (HDRP b) = GET m (HDRP b)" using F(8) b by (simp add: m'_def st'_def m_def)
    have "GET_SIZE (mem s3) (HDRP b) = GET_SIZE m' (HDRP b)" using same_tags_SIZE[OF te43 ah] by simp
    also have "\<dots> = GET_SIZE m (HDRP b)" using g by (simp add: GET_SIZE_def)
    also have "\<dots> = GET_SIZE (mem s1) (HDRP b)" using sz1[OF ah] by simp
    also have "\<dots> = GET_SIZE (mem sd) (HDRP b)" using same_tags_SIZE[OF ted ah] by simp
    finally show "BPALIGNED b \<and> GET m' (HDRP b) = GET m (HDRP b)
       \<and> GET_SIZE (mem s3) (HDRP b) = GET_SIZE (mem sd) (HDRP b)" using al g by simp
  qed
  have bk3: "buckets s3 LSA"
  proof (rule buckets_cong[OF bkd fl3])
    show "\<forall>i. 0 \<le> i \<and> i < 20 \<longrightarrow> (\<forall>b \<in> set (LSA i).
        GET_NEXT_FREE (mem s3) b = GET_NEXT_FREE (mem sd) b
        \<and> GET_PREV_FREE (mem s3) b = GET_PREV_FREE (mem sd) b
        \<and> cls (mem s3) b = cls (mem sd) b)"
    proof (intro allI impI ballI)
      fix i :: int and b assume i: "0 \<le> i \<and> i < 20" and b: "b \<in> set (LSA i)"
      have k: "BPALIGNED b" "GET_SIZE (mem s3) (HDRP b) = GET_SIZE (mem sd) (HDRP b)"
        using keep inA[OF i b] by simp_all
      show "GET_NEXT_FREE (mem s3) b = GET_NEXT_FREE (mem sd) b
        \<and> GET_PREV_FREE (mem s3) b = GET_PREV_FREE (mem sd) b
        \<and> cls (mem s3) b = cls (mem sd) b"
        using links_tag_only[OF sl3 k] k(2) by (simp add: cls_def)
    qed
  qed
  \<comment> \<open>inserting the merged block\<close>
  have sub3: "\<forall>i. 0 \<le> i \<and> i < 20 \<longrightarrow> set (LSA i) \<subseteq> set bs'"
    using inA by (auto simp: bs'_def)
  have Min: "M \<in> set bs'" by (simp add: bs'_def)
  have fresh: "\<forall>i. 0 \<le> i \<and> i < 20 \<longrightarrow> M \<notin> set (LSA i)"
    using inA dj Mmid by blast
  have clsM: "cls (mem s3) M = cls m' M" using te34 Mal by (rule cls_same_tags[symmetric])
  define LS' where "LS' = (\<lambda>i. if i = cls m' M then M # LSA i else LSA i)"
  have bk': "buckets st' LS'"
    using add_block_buckets(1)[OF n3 bk3 sub3 Min fresh] by (simp add: eq LS'_def clsM)
  \<comment> \<open>the buckets after the call\<close>
  have same': "\<And>b. b \<in> set (pre @ post) \<Longrightarrow> is_free m' b = is_free m b \<and> cls m' b = cls m b"
    using keep by (simp add: is_free_def GET_ALLOC_def cls_def GET_SIZE_def)
  have Mfree: "is_free m' M" using F(5) by (simp add: m'_def st'_def M_def)
  have each: "\<And>i. 0 \<le> i \<and> i < 20 \<Longrightarrow>
      bucket st' bs' i = LS' i \<and> bucket_ok st' bs' i"
  proof -
    fix i :: int assume i: "0 \<le> i \<and> i < 20"
    have d: "dls (mem st') 0 (root st' i) (LS' i) 0" and di: "distinct (LS' i)"
      using bk' i by (simp_all add: buckets_def)
    have s: "set (LS' i) = {b \<in> set bs'. is_free (mem st') b \<and> cls (mem st') b = i}"
    proof (intro set_eqI iffI)
      fix b assume b: "b \<in> set (LS' i)"
      show "b \<in> {b \<in> set bs'. is_free (mem st') b \<and> cls (mem st') b = i}"
      proof (cases "b = M")
        case True
        then have "i = cls m' M" using b fresh i by (auto simp: LS'_def split: if_splits)
        then show ?thesis using True Mfree Min by (simp add: m'_def)
      next
        case False
        then have "b \<in> set (LSA i)" using b by (auto simp: LS'_def split: if_splits)
        then show ?thesis using inA[OF i] same' by (auto simp: bs'_def m'_def)
      qed
    next
      fix b assume "b \<in> {b \<in> set bs'. is_free (mem st') b \<and> cls (mem st') b = i}"
      then have b: "b \<in> set bs'" "is_free m' b" "cls m' b = i" by (simp_all add: m'_def)
      show "b \<in> set (LS' i)"
      proof (cases "b = M")
        case True then show ?thesis using b(3) by (simp add: LS'_def)
      next
        case False
        then have bp': "b \<in> set (pre @ post)" using b(1) by (auto simp: bs'_def)
        then have "is_free m b" "cls m b = i" using same' b by simp_all
        moreover have "b \<in> set bs" using bp' F(1) by auto
        ultimately have "b \<in> set (LS0 i)" using set0 i by auto
        moreover have "b \<notin> set A" using bp' dj setA by auto
        ultimately show ?thesis by (auto simp: LS'_def LSA_def)
      qed
    qed
    show "bucket st' bs' i = LS' i \<and> bucket_ok st' bs' i"
      using bucket_okI[OF d di s dbs'] by simp
  qed
  have filt: "\<And>i. 0 \<le> i \<and> i < 20 \<Longrightarrow> filter (\<lambda>b. b \<notin> set mid) (LS0 i) = LSA i"
  proof -
    fix i :: int assume i: "0 \<le> i \<and> i < 20"
    have "\<And>b. b \<in> set (LS0 i) \<Longrightarrow> (b \<notin> set mid) = (b \<notin> set A)"
      using free0[OF i] alloc setA by (auto simp: m_def)
    then show "filter (\<lambda>b. b \<notin> set mid) (LS0 i) = LSA i"
      unfolding LSA_def by (intro filter_cong) auto
  qed
  have bucket_eq: "\<forall>i \<in> {0..19}. bucket st' bs' i
        = (if i = cls m' M then [M] else []) @ filter (\<lambda>b. b \<notin> set mid) (bucket st bs i)"
  proof
    fix i :: int assume "i \<in> {0..19}"
    then have i: "0 \<le> i \<and> i < 20" by simp
    show "bucket st' bs' i
        = (if i = cls m' M then [M] else []) @ filter (\<lambda>b. b \<notin> set mid) (bucket st bs i)"
      using each[OF i] filt[OF i] by (simp add: LS'_def LS0_def)
  qed
  have "list_all (bucket_ok st' bs') [0..19]"
    using each by (simp add: list_all_iff)
  then have con: "consistent st'"
    using F(7) F(4) by (simp add: consistent_def st'_def[symmetric] bs'_def M_def)
  have res: "bs = pre @ mid @ post \<and> bp \<in> set mid
           \<and> (\<forall>b \<in> set mid. b \<noteq> bp \<longrightarrow> is_free (mem st) b)
           \<and> heap_blocks (mem (free st bp)) (eptr (free st bp) + 8) (heap_listp (free st bp))
               = Some (pre @ hd mid # post)
           \<and> is_free (mem (free st bp)) (hd mid)
           \<and> no_adjacent_free (mem (free st bp)) (pre @ hd mid # post)
           \<and> (\<forall>i \<in> {0..19}. bucket (free st bp) (pre @ hd mid # post) i
                 = (if i = cls (mem (free st bp)) (hd mid) then [hd mid] else [])
                   @ filter (\<lambda>b. b \<notin> set mid) (bucket st bs i))
           \<and> consistent (free st bp)"
    using F(1-6) bucket_eq con unfolding st'_def m'_def bs'_def M_def by blast
  show ?thesis
    apply (rule exI[where x = pre])
    apply (rule exI[where x = mid])
    apply (rule exI[where x = post])
    using res by blast
qed

text \<open>
  The witness is the last call of scenario B: \<open>free b\<close> merges \<open>a\<close>, \<open>b\<close> and
  the rest of the chunk into one free block of 256 bytes at 4120. The blocks
  \<open>a\<close> and 4184 leave buckets 6 and 8, and the merged block is alone in
  bucket 9.
\<close>

theorem free_coalesces_witness:
  "consistent heapAB
   \<and> heap_blocks (mem heapAB) (eptr heapAB + 8) (heap_listp heapAB)
       = Some [4104, 4120, 4152, 4184]
   \<and> 4152 \<in> set (tl [4104, 4120, 4152, 4184 :: 64 word])
   \<and> \<not> is_free (mem heapAB) 4152
   \<and> bucket heapAB [4104, 4120, 4152, 4184] 6 = [4120]
   \<and> bucket heapAB [4104, 4120, 4152, 4184] 8 = [4184]
   \<and> consistent (free heapAB 4152)
   \<and> heap_blocks (mem (free heapAB 4152)) (eptr (free heapAB 4152) + 8)
         (heap_listp (free heapAB 4152)) = Some [4104, 4120]
   \<and> is_free (mem (free heapAB 4152)) 4120
   \<and> GET_SIZE (mem (free heapAB 4152)) (HDRP 4120) = 256
   \<and> bucket (free heapAB 4152) [4104, 4120] 6 = []
   \<and> bucket (free heapAB 4152) [4104, 4120] 8 = []
   \<and> bucket (free heapAB 4152) [4104, 4120] 9 = [4120]"
proof -
  have h3: "4152 \<in> set (tl [4104, 4120, 4152, 4184 :: 64 word])" by simp
  have h4: "\<not> is_free (mem heapAB) 4152" by (simp add: evals walk heapAB_def)
  have "consistent (free heapAB 4152)"
    using free_coalesces [OF heapAB_consistent heapAB_blocks h3 h4] by blast
  moreover have
    "heap_blocks (mem (free heapAB 4152)) (eptr (free heapAB 4152) + 8)
       (heap_listp (free heapAB 4152)) = Some [4104, 4120]
     \<and> is_free (mem (free heapAB 4152)) 4120
     \<and> GET_SIZE (mem (free heapAB 4152)) (HDRP 4120) = 256
     \<and> bucket (free heapAB 4152) [4104, 4120] 6 = []
     \<and> bucket (free heapAB 4152) [4104, 4120] 8 = []
     \<and> bucket (free heapAB 4152) [4104, 4120] 9 = [4120]"
    by (simp add: evals2 walk chains heapAB_def cong: let_weak_cong)
  ultimately show ?thesis using heapAB_consistent heapAB_blocks heapAB_buckets h3 h4 by simp
qed

text \<open>
  C9. On the initialised heap: \<open>b = malloc 8\<close>, \<open>c = malloc 100\<close>, the caller
  stores the word 4 at \<open>c + 20\<close> (inside the 104 payload bytes of \<open>c\<close>),
  \<open>free b\<close>, \<open>x = malloc (2^64 - 16)\<close>, \<open>free x\<close>, \<open>y = malloc 20\<close>, \<open>free y\<close>,
  \<open>z = malloc (2^64 - 16)\<close>. The rounding of \<open>2^64 - 16\<close> wraps to the adjusted
  size 0, and the last call returns 4172, which is not a multiple of 8.
\<close>

theorem misaligned_after_wrapped_request:
  "align_size 0xFFFFFFFFFFFFFFF0 = 0
   \<and> (case malloc heap0 8 of
      None \<Rightarrow> False
    | Some (b, s1) \<Rightarrow>
        (case malloc s1 100 of
           None \<Rightarrow> False
         | Some (c, s2) \<Rightarrow>
             b = 4120 \<and> c = 4144 \<and> payload (mem s2) c = 104
             \<and> (case malloc (free (s2\<lparr>mem := PUT (mem s2) (c + 20) 4\<rparr>) b) 0xFFFFFFFFFFFFFFF0 of
                   None \<Rightarrow> False
                 | Some (x, s5) \<Rightarrow>
                     (case malloc (free s5 x) 20 of
                        None \<Rightarrow> False
                      | Some (y, s7) \<Rightarrow>
                          (case malloc (free s7 y) 0xFFFFFFFFFFFFFFF0 of
                             None \<Rightarrow> False
                           | Some (z, s9) \<Rightarrow> z = 4172 \<and> z \<noteq> NULL \<and> \<not> BPALIGNED z)))))"
  by (simp add: evals2 heap0_def BPALIGNED_def cong: let_weak_cong)

end
